theory Spec2Isabelle
  imports Main "HOL-Library.Char_ord" "HOL-Library.List_Lexorder" "HOL-Library.Multiset"
begin

section \<open>Data model of the tiling solver (solver.worker.ts)\<close>

text \<open>
  A cell is a pair of integer coordinates \<open>(x, y)\<close>. The source keys its hash sets and maps
  by the string \<open>x,y\<close>; printing a pair of integers that way is injective, so sets and maps
  of cells are keyed by the pair itself here. Only \<open>canonicalKey\<close>, whose strings are
  compared with \<open><\<close>, builds the strings.
\<close>

type_synonym cell = "int \<times> int"

record tile =
  name :: string
  base :: "cell list"
  allowRot :: "bool option"
  allowReflect :: "bool option"
  count :: "int option"

record placement =
  ti :: nat
  cells :: "cell list"

type_synonym layout = "placement list"

subsection \<open>Board cells and board symmetries\<close>

definition boardCells :: "int \<Rightarrow> int \<Rightarrow> cell set \<Rightarrow> cell list" where
  "boardCells W H holes =
     concat (map (\<lambda>y. concat (map (\<lambda>x. if (x, y) \<in> holes then [] else [(x, y)]) [0..W - 1]))
                 [0..H - 1])"

definition boardSymTransforms :: "int \<Rightarrow> int \<Rightarrow> (int \<Rightarrow> int \<Rightarrow> cell) list" where
  "boardSymTransforms W H =
     (let r0 = (\<lambda>x y. (x, y));
          fx = (\<lambda>x y. (W - 1 - x, y));
          fy = (\<lambda>x y. (x, H - 1 - y))
      in if W = H then
           (let r1 = (\<lambda>x y. (y, W - 1 - x));
                r2 = (\<lambda>x y. (W - 1 - x, H - 1 - y));
                r3 = (\<lambda>x y. (H - 1 - y, x));
                fd = (\<lambda>x y. (y, x));
                fo = (\<lambda>x y. (W - 1 - y, H - 1 - x))
            in [r0, r1, r2, r3, fx, fy, fd, fo])
         else [r0, fx, fy])"


subsection \<open>Sorting with a comparator, and printing\<close>

text \<open>
  \<open>Array.prototype.sort\<close> is stable. It is modelled by a stable insertion sort driven by the
  comparator itself (a negative, zero or positive integer, as in the source).
\<close>

fun js_insort :: "('a \<Rightarrow> 'a \<Rightarrow> int) \<Rightarrow> 'a \<Rightarrow> 'a list \<Rightarrow> 'a list" where
  "js_insort cmp x [] = [x]"
| "js_insort cmp x (y # ys) = (if cmp x y \<le> 0 then x # y # ys else y # js_insort cmp x ys)"

definition js_sort :: "('a \<Rightarrow> 'a \<Rightarrow> int) \<Rightarrow> 'a list \<Rightarrow> 'a list" where
  "js_sort cmp xs = foldr (js_insort cmp) xs []"

text \<open>The comparator \<open>(a,b) => a[1]-b[1] || a[0]-b[0]\<close>: by \<open>y\<close>, then by \<open>x\<close>.\<close>

definition cmpCell :: "cell \<Rightarrow> cell \<Rightarrow> int" where
  "cmpCell a b = (if snd a - snd b \<noteq> 0 then snd a - snd b else fst a - fst b)"

fun showNat :: "nat \<Rightarrow> string" where
  "showNat n = (if n < 10 then [''0123456789'' ! n]
                else showNat (n div 10) @ [''0123456789'' ! (n mod 10)])"

definition showInt :: "int \<Rightarrow> string" where
  "showInt i = (if i < 0 then CHR ''-'' # showNat (nat (- i)) else showNat (nat i))"

definition cellStr :: "cell \<Rightarrow> string" where
  "cellStr c = showInt (fst c) @ '','' @ showInt (snd c)"

fun joinStr :: "string \<Rightarrow> string list \<Rightarrow> string" where
  "joinStr sep [] = []"
| "joinStr sep [s] = s"
| "joinStr sep (s # t # ss) = s @ sep @ joinStr sep (t # ss)"

subsection \<open>Canonical key of a layout\<close>

fun cmpCellsLoop :: "cell list \<Rightarrow> cell list \<Rightarrow> int option" where
  "cmpCellsLoop (a # as) (b # bs) =
     (if snd a \<noteq> snd b then Some (snd a - snd b)
      else if fst a \<noteq> fst b then Some (fst a - fst b)
      else cmpCellsLoop as bs)"
| "cmpCellsLoop _ _ = None"

definition cmpPlac :: "placement \<Rightarrow> placement \<Rightarrow> int" where
  "cmpPlac A B =
     (case cmpCellsLoop (cells A) (cells B) of
        Some d \<Rightarrow> d
      | None \<Rightarrow>
          (if int (length (cells A)) - int (length (cells B)) \<noteq> 0
           then int (length (cells A)) - int (length (cells B))
           else int (ti A) - int (ti B)))"

text \<open>
  The test at the head of the loop body: with a board set given, the transform takes part
  only when the transformed board set has the same size and contains every board cell.
\<close>

definition keepsBoard :: "cell set option \<Rightarrow> (int \<Rightarrow> int \<Rightarrow> cell) \<Rightarrow> bool" where
  "keepsBoard boardSet f =
     (case boardSet of
        None \<Rightarrow> True
      | Some B \<Rightarrow> (let TB = (\<lambda>(x, y). f x y) ` B in card TB = card B \<and> B \<subseteq> TB))"

definition transformLayout :: "(int \<Rightarrow> int \<Rightarrow> cell) \<Rightarrow> layout \<Rightarrow> layout" where
  "transformLayout f lay =
     js_sort cmpPlac
       (map (\<lambda>p. \<lparr>ti = ti p, cells = js_sort cmpCell (map (\<lambda>(x, y). f x y) (cells p))\<rparr>) lay)"

definition serialize :: "layout \<Rightarrow> string" where
  "serialize tPlac = joinStr ''|'' (map (\<lambda>p. joinStr '';'' (map cellStr (cells p))) tPlac)"

definition canonStep :: "layout \<Rightarrow> cell set option \<Rightarrow> string option \<Rightarrow> (int \<Rightarrow> int \<Rightarrow> cell) \<Rightarrow> string option" where
  "canonStep lay boardSet best f =
     (if \<not> keepsBoard boardSet f then best
      else (let s = serialize (transformLayout f lay)
            in case best of None \<Rightarrow> Some s | Some b \<Rightarrow> if s < b then Some s else Some b))"

definition canonicalKey :: "layout \<Rightarrow> int \<Rightarrow> int \<Rightarrow> tile list \<Rightarrow> bool \<Rightarrow> cell set option \<Rightarrow> string option" where
  "canonicalKey lay W H tiles useSym boardSet =
     (let T = (if useSym then boardSymTransforms W H else [\<lambda>x y. (x, y)])
      in foldl (canonStep lay boardSet) None T)"

subsection \<open>Pre-flight impossibility tests\<close>

text \<open>
  The reasons are strings in the source; each is modelled by a constructor carrying the
  numbers the string interpolates. \<open>NoLayoutFound\<close> is the reason the message handler
  gives when the search is exhausted.
\<close>

datatype reason =
    NoTilesAvailable
  | InsufficientArea nat int
  | OddBoardEvenTiles
  | GcdMismatch nat nat
  | ParityMismatch nat
  | NoLayoutFound

record pfres =
  ok :: bool
  reasons :: "reason list"

fun gcd_js :: "nat \<Rightarrow> nat \<Rightarrow> nat" where
  "gcd_js a b = (if b \<noteq> 0 then gcd_js b (a mod b) else a)"

definition gcdMany :: "nat list \<Rightarrow> nat" where
  "gcdMany arr = foldl gcd_js (hd arr) (tl arr)"

text \<open>\<open>(x+y)&1\<close> is 1 exactly when \<open>x + y\<close> is odd; the result is \<open>Math.abs(black - white)\<close>.\<close>

definition bwDelta :: "cell list \<Rightarrow> nat" where
  "bwDelta cs =
     (let black = length (filter (\<lambda>(x, y). odd (x + y)) cs);
          white = length (filter (\<lambda>(x, y). \<not> odd (x + y)) cs)
      in nat \<bar>int black - int white\<bar>)"

definition countBoardBW :: "cell list \<Rightarrow> nat \<times> nat \<times> nat" where
  "countBoardBW cs =
     (length (filter (\<lambda>(x, y). odd (x + y)) cs),
      length (filter (\<lambda>(x, y). \<not> odd (x + y)) cs),
      bwDelta cs)"

definition tileBWDelta :: "cell list \<Rightarrow> nat" where
  "tileBWDelta shape = bwDelta shape"

text \<open>
  The first loop of \<open>preflight\<close>: \<open>maxArea\<close> (\<open>None\<close> is \<open>Infinity\<close>), \<open>allEven\<close> and
  \<open>anyTile\<close>, over the tiles whose count is positive or absent.
\<close>

definition stockStep :: "(int option \<times> bool \<times> bool) \<Rightarrow> tile \<Rightarrow> (int option \<times> bool \<times> bool)" where
  "stockStep acc t =
     (case acc of (maxArea, allEven, anyTile) \<Rightarrow>
        (case count t of
           Some cnt \<Rightarrow>
             (if cnt \<le> 0 then acc
              else (case maxArea of None \<Rightarrow> None | Some m \<Rightarrow> Some (m + cnt * int (length (base t))),
                    allEven \<and> length (base t) mod 2 = 0, True))
         | None \<Rightarrow> (None, allEven \<and> length (base t) mod 2 = 0, True)))"

definition available :: "tile \<Rightarrow> bool" where
  "available t = (case count t of None \<Rightarrow> True | Some cnt \<Rightarrow> cnt > 0)"

definition preflight :: "int \<Rightarrow> int \<Rightarrow> cell set \<Rightarrow> tile list \<Rightarrow> pfres" where
  "preflight W H holesSet tiles =
     (let free = boardCells W H holesSet;
          N = length free;
          (maxArea, allEven, anyTile) = foldl stockStep (Some 0, True, False) tiles;
          r1 = (if \<not> anyTile then [NoTilesAvailable] else []);
          r2 = (case maxArea of
                  None \<Rightarrow> []
                | Some m \<Rightarrow> if m < int N then [InsufficientArea N m] else []);
          r3 = (if N mod 2 = 1 \<and> allEven then [OddBoardEvenTiles] else []);
          usableAreas = map (\<lambda>t. length (base t)) (filter available tiles);
          r4 = (if usableAreas \<noteq> []
                then (let g = gcdMany usableAreas
                      in if g = 0 \<or> N mod g \<noteq> 0 then [GcdMismatch N g] else [])
                else []);
          delta = snd (snd (countBoardBW free));
          tilesBWNeutral = list_all (\<lambda>t. tileBWDelta (base t) = 0) tiles;
          r5 = (if tilesBWNeutral \<and> delta \<noteq> 0 then [ParityMismatch delta] else []);
          rs = r1 @ r2 @ r3 @ r4 @ r5
      in \<lparr>ok = (rs = []), reasons = rs\<rparr>)"

text \<open>
  The cap expression of \<open>solveBalanced\<close>, \<open>balance.maxSolutionsToEvaluate || cap || 1000\<close>:
  a number is falsy exactly when it is 0, an absent value is falsy.
\<close>

definition capSolutionsOf :: "int option \<Rightarrow> int option \<Rightarrow> int" where
  "capSolutionsOf mte cap =
     (case mte of
        Some m \<Rightarrow> if m \<noteq> 0 then m else (case cap of Some c \<Rightarrow> if c \<noteq> 0 then c else 1000 | None \<Rightarrow> 1000)
      | None \<Rightarrow> (case cap of Some c \<Rightarrow> if c \<noteq> 0 then c else 1000 | None \<Rightarrow> 1000))"

subsection \<open>Orientations and placements\<close>

definition rot90 :: "cell list \<Rightarrow> cell list" where
  "rot90 c = map (\<lambda>(x, y). (- y, x)) c"

definition reflX :: "cell list \<Rightarrow> cell list" where
  "reflX c = map (\<lambda>(x, y). (- x, y)) c"

definition normShape :: "cell list \<Rightarrow> cell list" where
  "normShape cs =
     (let minx = Min (set (map fst cs)); miny = Min (set (map snd cs))
      in js_sort cmpCell (map (\<lambda>(x, y). (x - minx, y - miny)) cs))"

text \<open>
  \<open>push\<close> inside \<open>orientations\<close>: the set \<open>seen\<close> keeps its elements in insertion order, and
  the strings it holds are read back into the shapes they print.
\<close>

definition pushSeen :: "cell list \<Rightarrow> cell list list \<Rightarrow> cell list list" where
  "pushSeen s sn = (let n = normShape s in if n \<in> set sn then sn else sn @ [n])"

text \<open>The body of the loop over the candidates: \<open>push(c); if (refl) push(reflX(c))\<close>.\<close>

definition orientStep :: "bool \<Rightarrow> cell list list \<Rightarrow> cell list \<Rightarrow> cell list list" where
  "orientStep rf sn c = (let sn1 = pushSeen c sn in if rf then pushSeen (reflX c) sn1 else sn1)"

text \<open>An absent \<open>rot\<close> takes the default \<open>true\<close>, an absent \<open>refl\<close> the default \<open>false\<close>.\<close>

definition orientations :: "cell list \<Rightarrow> bool option \<Rightarrow> bool option \<Rightarrow> cell list list" where
  "orientations shape rotArg reflArg =
     foldl (orientStep (case reflArg of None \<Rightarrow> False | Some x \<Rightarrow> x)) []
       (shape # (if (case rotArg of None \<Rightarrow> True | Some x \<Rightarrow> x)
                 then [rot90 shape, rot90 (rot90 shape), rot90 (rot90 (rot90 shape))] else []))"

type_synonym pstate = "placement list \<times> (cell \<Rightarrow> nat list option)"

definition pushPlacement :: "nat \<Rightarrow> cell list \<Rightarrow> pstate \<Rightarrow> pstate" where
  "pushPlacement tix acells st =
     (case st of (ps, bc) \<Rightarrow>
        (ps @ [\<lparr>ti = tix, cells = acells\<rparr>],
         foldl (\<lambda>m k. m(k \<mapsto> (case m k of None \<Rightarrow> [] | Some l \<Rightarrow> l) @ [length ps])) bc acells))"

definition tryOffset :: "cell set \<Rightarrow> nat \<Rightarrow> cell list \<Rightarrow> int \<Rightarrow> int \<Rightarrow> pstate \<Rightarrow> pstate" where
  "tryOffset boardSet tix ori oy ox st =
     (let acells = map (\<lambda>(x, y). (x + ox, y + oy)) ori
      in if list_all (\<lambda>c. c \<in> boardSet) acells then pushPlacement tix acells st else st)"

text \<open>
  The two offset loops for one orientation. For an empty orientation \<open>Math.max()\<close> is
  \<open>-Infinity\<close>, both loop bounds are infinite and every offset passes the test: the loops
  never end. \<open>None\<close> stands for not returning.
\<close>

definition placeOrientation :: "int \<Rightarrow> int \<Rightarrow> cell set \<Rightarrow> nat \<Rightarrow> cell list \<Rightarrow> pstate \<Rightarrow> pstate option" where
  "placeOrientation W H boardSet tix ori st =
     (if ori = [] then None
      else (let maxx = Max (set (map fst ori)); maxy = Max (set (map snd ori))
            in Some (foldl (\<lambda>st1 oy. foldl (\<lambda>st2 ox. tryOffset boardSet tix ori oy ox st2)
                                       st1 [0..W - 1 - maxx])
                       st [0..H - 1 - maxy])))"

fun placeOrientations :: "int \<Rightarrow> int \<Rightarrow> cell set \<Rightarrow> nat \<Rightarrow> cell list list \<Rightarrow> pstate \<Rightarrow> pstate option" where
  "placeOrientations W H boardSet tix [] st = Some st"
| "placeOrientations W H boardSet tix (ori # os) st =
     (case placeOrientation W H boardSet tix ori st of
        None \<Rightarrow> None
      | Some st' \<Rightarrow> placeOrientations W H boardSet tix os st')"

fun placeTiles :: "int \<Rightarrow> int \<Rightarrow> cell set \<Rightarrow> nat \<Rightarrow> tile list \<Rightarrow> pstate \<Rightarrow> pstate option" where
  "placeTiles W H boardSet tix [] st = Some st"
| "placeTiles W H boardSet tix (t # ts) st =
     (case placeOrientations W H boardSet tix (orientations (base t) (allowRot t) (allowReflect t)) st of
        None \<Rightarrow> None
      | Some st' \<Rightarrow> placeTiles W H boardSet (Suc tix) ts st')"

definition precomputePlacements :: "int \<Rightarrow> int \<Rightarrow> cell set \<Rightarrow> tile list \<Rightarrow> pstate option" where
  "precomputePlacements W H boardSet tiles = placeTiles W H boardSet 0 tiles ([], Map.empty)"

subsection \<open>Enumeration of tilings (enumerateTilings)\<close>

text \<open>
  The constants that the helper closures of \<open>enumerateTilings\<close> capture, and the variables
  they mutate. \<open>Math.random()\<close> is a stream \<open>e_rnd\<close> of raw draws, read at position \<open>rpos\<close>;
  the index \<open>(Math.random()*(i+1))|0\<close> is an arbitrary one in \<open>0..i\<close>, taken as the draw
  modulo \<open>i+1\<close>. The events handed to the progress callback are collected in \<open>posted\<close>.
\<close>

record env =
  e_W :: int
  e_H :: int
  e_tiles :: "tile list"
  e_unique :: bool
  e_cap :: int
  e_progressCb :: "(int \<Rightarrow> int \<Rightarrow> (int \<times> int) list) option"
  e_rnd :: "nat \<Rightarrow> nat"
  e_placements :: "placement list"
  e_byCell :: "cell \<Rightarrow> nat list option"
  e_allCells :: "cell list"
  e_totalCells :: nat
  e_boardSet :: "cell set"

record est =
  covered :: "cell set"
  usedCounts :: "int list"
  usedPlacements :: "nat list"
  seen :: "string option set"
  solutions :: "layout list"
  coveredCount :: int
  nodes :: int
  rpos :: nat
  posted :: "(int \<times> int) list"

definition place :: "env \<Rightarrow> nat \<Rightarrow> est \<Rightarrow> est" where
  "place e pid st =
     (let p = e_placements e ! pid
      in st\<lparr>usedCounts := (usedCounts st)[ti p := usedCounts st ! ti p + 1],
            covered := covered st \<union> set (cells p),
            usedPlacements := usedPlacements st @ [pid],
            coveredCount := coveredCount st + int (length (cells p))\<rparr>)"

definition unplace :: "env \<Rightarrow> nat \<Rightarrow> est \<Rightarrow> est" where
  "unplace e pid st =
     (let p = e_placements e ! pid
      in st\<lparr>usedCounts := (usedCounts st)[ti p := usedCounts st ! ti p - 1],
            covered := covered st - set (cells p),
            usedPlacements := butlast (usedPlacements st),
            coveredCount := coveredCount st - int (length (cells p))\<rparr>)"

definition stockLeft :: "tile list \<Rightarrow> int list \<Rightarrow> nat \<Rightarrow> bool" where
  "stockLeft tiles used tix =
     (case count (tiles ! tix) of None \<Rightarrow> True | Some limit \<Rightarrow> \<not> (used ! tix \<ge> limit))"

definition validPidsForCell :: "env \<Rightarrow> est \<Rightarrow> cell \<Rightarrow> nat list" where
  "validPidsForCell e st k =
     filter (\<lambda>pid. stockLeft (e_tiles e) (usedCounts st) (ti (e_placements e ! pid))
                    \<and> list_all (\<lambda>c. c \<notin> covered st) (cells (e_placements e ! pid)))
       (case e_byCell e k of None \<Rightarrow> [] | Some l \<Rightarrow> l)"

text \<open>The scan of \<open>chooseCellAndPids\<close>, with its three local variables as accumulators.\<close>

fun chooseLoop :: "env \<Rightarrow> est \<Rightarrow> cell list \<Rightarrow> cell option \<Rightarrow> nat list option \<Rightarrow> int
                    \<Rightarrow> cell option \<times> nat list" where
  "chooseLoop e st [] bestCell bestPids bestLen =
     (bestCell, case bestPids of None \<Rightarrow> [] | Some ps \<Rightarrow> ps)"
| "chooseLoop e st (k # ks) bestCell bestPids bestLen =
     (if k \<in> covered st then chooseLoop e st ks bestCell bestPids bestLen
      else (let cands = validPidsForCell e st k; len = int (length cands)
            in if len = 0 then (Some k, [])
               else if len < bestLen
                    then (if len = 1 then (Some k, cands)
                          else chooseLoop e st ks (Some k) (Some cands) len)
                    else chooseLoop e st ks bestCell bestPids bestLen))"

definition chooseCellAndPids :: "env \<Rightarrow> est \<Rightarrow> cell option \<times> nat list" where
  "chooseCellAndPids e st = chooseLoop e st (e_allCells e) None None 1000000000"

text \<open>The Fisher-Yates shuffle, \<open>i\<close> running from the last index down to 1.\<close>

fun shuffleLoop :: "(nat \<Rightarrow> nat) \<Rightarrow> nat \<Rightarrow> 'a list \<Rightarrow> nat \<Rightarrow> 'a list \<times> nat" where
  "shuffleLoop rnd 0 xs pos = (xs, pos)"
| "shuffleLoop rnd (Suc i) xs pos =
     (let j = rnd pos mod (Suc i + 1)
      in shuffleLoop rnd i (xs[Suc i := xs ! j, j := xs ! Suc i]) (pos + 1))"

definition shuffle :: "(nat \<Rightarrow> nat) \<Rightarrow> 'a list \<Rightarrow> nat \<Rightarrow> 'a list \<times> nat" where
  "shuffle rnd xs pos = shuffleLoop rnd (length xs - 1) xs pos"

text \<open>\<open>if (++nodes % 5000 === 0 && progressCb) progressCb({nodes, found})\<close>.\<close>

definition tick :: "env \<Rightarrow> est \<Rightarrow> est" where
  "tick e st =
     (let n = nodes st + 1
      in st\<lparr>nodes := n,
            posted := posted st @
              (if n mod 5000 = 0
               then (case e_progressCb e of None \<Rightarrow> [] | Some cb \<Rightarrow> cb n (int (length (solutions st))))
               else [])\<rparr>)"

text \<open>\<open>while (trail.length) unplace(trail.pop())\<close>; the head of the list is the top of the stack.\<close>

fun unwind :: "env \<Rightarrow> nat list \<Rightarrow> est \<Rightarrow> est" where
  "unwind e [] st = st"
| "unwind e (pid # trail) st = unwind e trail (unplace e pid st)"

definition record_solution :: "env \<Rightarrow> est \<Rightarrow> est" where
  "record_solution e st =
     (let lay = map (\<lambda>pid. \<lparr>ti = ti (e_placements e ! pid), cells = cells (e_placements e ! pid)\<rparr>)
                  (usedPlacements st);
          key = canonicalKey lay (e_W e) (e_H e) (e_tiles e) (e_unique e) (Some (e_boardSet e))
      in if key \<notin> seen st
         then st\<lparr>seen := insert key (seen st), solutions := solutions st @ [lay]\<rparr>
         else st)"

text \<open>
  \<open>rec\<close>, its \<open>while (true)\<close> loop and the \<open>for\<close> loop over the shuffled candidates. The
  natural number is fuel: each call of \<open>rec\<close> and each turn of the \<open>while\<close> loop takes one
  unit, and \<open>None\<close> means that the fuel ran out before the search returned.
\<close>

fun rec :: "env \<Rightarrow> nat \<Rightarrow> est \<Rightarrow> est option"
  and loop :: "env \<Rightarrow> nat \<Rightarrow> nat list \<Rightarrow> est \<Rightarrow> est option"
  and branch :: "env \<Rightarrow> nat \<Rightarrow> nat list \<Rightarrow> nat list \<Rightarrow> est \<Rightarrow> est option" where
  "rec e 0 st = None"
| "rec e (Suc n) st =
     (if int (length (solutions st)) \<ge> e_cap e then Some st else loop e n [] st)"
| "loop e 0 trail st = None"
| "loop e (Suc n) trail st =
     (if coveredCount st = int (e_totalCells e)
      then Some (unwind e trail (record_solution e st))
      else (case chooseCellAndPids e st of
              (cellK, pids) \<Rightarrow>
                if length pids = 0 then Some (unwind e trail st)
                else if length pids = 1
                  then loop e n (pids ! 0 # trail) (tick e (place e (pids ! 0) st))
                  else (case shuffle (e_rnd e) pids (rpos st) of
                          (pids', pos') \<Rightarrow> branch e n trail pids' (st\<lparr>rpos := pos'\<rparr>))))"
| "branch e n trail [] st = Some (unwind e trail st)"
| "branch e 0 trail (pid # pids) st = None"
| "branch e (Suc n) trail (pid # pids) st =
     (case rec e n (tick e (place e pid st)) of
        None \<Rightarrow> None
      | Some st' \<Rightarrow>
          if int (length (solutions st')) \<ge> e_cap e then Some (unwind e trail st')
          else branch e (Suc n) trail pids (unplace e pid st'))"

datatype js_error = Error string

record enumres =
  en_solutions :: "layout list"
  en_boardSet :: "cell set"
  en_posted :: "(int \<times> int) list"
  en_rpos :: nat

text \<open>
  \<open>enumerateTilings\<close>: \<open>None\<close> when it does not return (with the fuel given), \<open>Inl\<close> the
  exception it throws, \<open>Inr\<close> its result together with the progress events it handed to the
  callback and the number of random draws it made (starting at \<open>pos0\<close>). An absent
  \<open>uniqueByBoardSymmetry\<close> takes the default \<open>true\<close> of the parameter.
\<close>

definition enumerateTilings ::
  "nat \<Rightarrow> (nat \<Rightarrow> nat) \<Rightarrow> nat \<Rightarrow> int \<Rightarrow> int \<Rightarrow> cell set \<Rightarrow> tile list \<Rightarrow> bool option \<Rightarrow> int
   \<Rightarrow> (int \<Rightarrow> int \<Rightarrow> (int \<times> int) list) option \<Rightarrow> (js_error + enumres) option" where
  "enumerateTilings fuel rnd pos0 W H holes tiles uniqueByBoardSymmetry capSolutions progressCb =
     (let b = boardCells W H holes;
          totalCells = length b;
          boardSet = set b
      in case precomputePlacements W H boardSet tiles of
           None \<Rightarrow> None
         | Some (placements, byCell) \<Rightarrow>
             if list_all (\<lambda>t. count t \<noteq> None) tiles
                \<and> foldl (\<lambda>a t. a + the (count t) * int (length (base t))) 0 tiles < int (length b)
             then Some (Inl (Error ''Not enough stone area to cover the patio.''))
             else (let e = \<lparr>e_W = W, e_H = H, e_tiles = tiles,
                            e_unique = (case uniqueByBoardSymmetry of None \<Rightarrow> True | Some u \<Rightarrow> u),
                            e_cap = capSolutions, e_progressCb = progressCb, e_rnd = rnd,
                            e_placements = placements, e_byCell = byCell, e_allCells = b,
                            e_totalCells = totalCells, e_boardSet = boardSet\<rparr>;
                        st0 = \<lparr>covered = {}, usedCounts = replicate (length tiles) 0,
                              usedPlacements = [], seen = {}, solutions = [], coveredCount = 0,
                              nodes = 0, rpos = pos0, posted = []\<rparr>
                   in case rec e fuel st0 of
                        None \<Rightarrow> None
                      | Some st \<Rightarrow> Some (Inr \<lparr>en_solutions = solutions st, en_boardSet = boardSet,
                                               en_posted = posted st, en_rpos = rpos st\<rparr>)))"

subsection \<open>First exact cover (solveFirstExactCover)\<close>

text \<open>
  A row of the exact-cover matrix. The source keeps the tile index of row \<open>i\<close> in the
  parallel array \<open>rowsTi\<close> and copies it into \<open>rows[i]._ti\<close> before the search; the record
  holds it from the start.
\<close>

record row =
  pid :: nat
  cols :: "nat list"
  r_ti :: nat

record xdata =
  freeCells :: "cell list"
  colIndex :: "cell \<Rightarrow> nat option"
  rows :: "row list"
  colToRows :: "nat list list"
  x_placements :: "placement list"

definition colIndexOf :: "cell list \<Rightarrow> (cell \<Rightarrow> nat option)" where
  "colIndexOf cs = fst (foldl (\<lambda>(m, n) k. (m(k \<mapsto> n), Suc n)) (Map.empty, 0) cs)"

definition buildRows :: "(cell \<Rightarrow> nat option) \<Rightarrow> placement list \<Rightarrow> row list" where
  "buildRows ci placements =
     foldl (\<lambda>rs p. case those (map ci (cells (placements ! p))) of
                       None \<Rightarrow> rs
                     | Some cs \<Rightarrow> rs @ [\<lparr>pid = p, cols = cs, r_ti = ti (placements ! p)\<rparr>])
       [] [0..<length placements]"

definition buildColToRows :: "nat \<Rightarrow> row list \<Rightarrow> nat list list" where
  "buildColToRows n rs =
     foldl (\<lambda>ctr r. foldl (\<lambda>ctr1 c. ctr1[c := ctr1 ! c @ [r]]) ctr (cols (rs ! r)))
       (replicate n []) [0..<length rs]"

definition buildExactCoverData :: "int \<Rightarrow> int \<Rightarrow> cell set \<Rightarrow> tile list \<Rightarrow> xdata option" where
  "buildExactCoverData W H holesSet tiles =
     (let fc = boardCells W H holesSet;
          ci = colIndexOf fc;
          boardSet = set fc
      in case precomputePlacements W H boardSet tiles of
           None \<Rightarrow> None
         | Some (placements, byCell) \<Rightarrow>
             (let rs = buildRows ci placements
              in Some \<lparr>freeCells = fc, colIndex = ci, rows = rs,
                       colToRows = buildColToRows (length fc) rs, x_placements = placements\<rparr>))"

record xst =
  coveredCols :: "bool list"
  usedRow :: "bool list"
  x_usedCounts :: "int list"
  solutionRows :: "nat list"
  bannedRowsStack :: "nat list list"
  x_nodes :: int
  x_rpos :: nat
  x_posted :: "(int \<times> int) list"

text \<open>The rows of a column that are neither used nor banned and whose tile has stock left.\<close>

definition usableRow :: "tile list \<Rightarrow> xdata \<Rightarrow> xst \<Rightarrow> nat \<Rightarrow> bool" where
  "usableRow tiles d st r =
     (\<not> usedRow st ! r \<and> stockLeft tiles (x_usedCounts st) (r_ti (rows d ! r)))"

fun chooseColLoop :: "tile list \<Rightarrow> xdata \<Rightarrow> xst \<Rightarrow> nat list \<Rightarrow> nat option \<Rightarrow> int \<Rightarrow> nat option" where
  "chooseColLoop tiles d st [] best bestLen = best"
| "chooseColLoop tiles d st (c # cs) best bestLen =
     (if coveredCols st ! c then chooseColLoop tiles d st cs best bestLen
      else (let cnt = int (length (filter (usableRow tiles d st) (colToRows d ! c)))
            in if cnt = 0 then Some c
               else if cnt < bestLen
                    then (if cnt = 1 then Some c else chooseColLoop tiles d st cs (Some c) cnt)
                    else chooseColLoop tiles d st cs best bestLen))"

text \<open>\<open>chooseColumn\<close>; the result \<open>-1\<close> of the source is \<open>None\<close>.\<close>

definition chooseColumn :: "tile list \<Rightarrow> xdata \<Rightarrow> xst \<Rightarrow> nat option" where
  "chooseColumn tiles d st =
     chooseColLoop tiles d st [0..<length (colToRows d)] None 1000000000"

definition banStep :: "bool list \<times> nat list \<Rightarrow> nat \<Rightarrow> bool list \<times> nat list" where
  "banStep acc r2 =
     (case acc of (ur, bannedNow) \<Rightarrow>
        if \<not> ur ! r2 then (ur[r2 := True], bannedNow @ [r2]) else (ur, bannedNow))"

definition chooseRow :: "xdata \<Rightarrow> nat \<Rightarrow> xst \<Rightarrow> xst" where
  "chooseRow d r st =
     (let ur0 = (usedRow st)[r := True];
          tix = r_ti (rows d ! r);
          uc = (x_usedCounts st)[tix := x_usedCounts st ! tix + 1];
          (ur, bannedNow) = foldl banStep (ur0, [])
                              (concat (map (\<lambda>c. colToRows d ! c) (cols (rows d ! r))))
      in st\<lparr>usedRow := ur, x_usedCounts := uc,
            bannedRowsStack := bannedRowsStack st @ [bannedNow],
            coveredCols := foldl (\<lambda>cc c. cc[c := True]) (coveredCols st) (cols (rows d ! r))\<rparr>)"

definition unchooseRow :: "xdata \<Rightarrow> nat \<Rightarrow> xst \<Rightarrow> xst" where
  "unchooseRow d r st =
     (let cc = foldl (\<lambda>cc c. cc[c := False]) (coveredCols st) (cols (rows d ! r));
          bannedNow = last (bannedRowsStack st);
          ur = (foldl (\<lambda>ur r2. ur[r2 := False]) (usedRow st) bannedNow)[r := False];
          tix = r_ti (rows d ! r)
      in st\<lparr>coveredCols := cc, bannedRowsStack := butlast (bannedRowsStack st),
            usedRow := ur,
            x_usedCounts := (x_usedCounts st)[tix := x_usedCounts st ! tix - 1]\<rparr>)"

definition allCovered :: "xst \<Rightarrow> bool" where
  "allCovered st = list_all (\<lambda>b. b) (coveredCols st)"

text \<open>\<open>if (++nodes % 5000 === 0) self.postMessage({type:'progress', nodes, found: 0})\<close>.\<close>

definition xtick :: "xst \<Rightarrow> xst" where
  "xtick st =
     (let n = x_nodes st + 1
      in st\<lparr>x_nodes := n, x_posted := x_posted st @ (if n mod 5000 = 0 then [(n, 0)] else [])\<rparr>)"

definition candidatesOf :: "tile list \<Rightarrow> xdata \<Rightarrow> xst \<Rightarrow> nat \<Rightarrow> nat list" where
  "candidatesOf tiles d st c =
     filter (\<lambda>r. usableRow tiles d st r \<and> list_all (\<lambda>cc. \<not> coveredCols st ! cc) (cols (rows d ! r)))
       (colToRows d ! c)"

text \<open>
  \<open>dfs\<close> and its \<open>for\<close> loop over the shuffled candidates, with fuel: each call of \<open>dfs\<close>
  takes one unit, \<open>None\<close> means that the fuel ran out.
\<close>

fun dfs :: "tile list \<Rightarrow> (nat \<Rightarrow> nat) \<Rightarrow> xdata \<Rightarrow> nat \<Rightarrow> xst \<Rightarrow> (bool \<times> xst) option"
  and tryRows :: "tile list \<Rightarrow> (nat \<Rightarrow> nat) \<Rightarrow> xdata \<Rightarrow> nat \<Rightarrow> nat list \<Rightarrow> xst \<Rightarrow> (bool \<times> xst) option" where
  "dfs tiles rnd d 0 st = None"
| "dfs tiles rnd d (Suc n) st =
     (let st1 = xtick st
      in if allCovered st1 then Some (True, st1)
         else (case chooseColumn tiles d st1 of
                 None \<Rightarrow> Some (False, st1)
               | Some c \<Rightarrow>
                   if length (colToRows d ! c) = 0 then Some (False, st1)
                   else (let candidates = candidatesOf tiles d st1 c
                         in if length candidates = 0 then Some (False, st1)
                            else (case shuffle rnd candidates (x_rpos st1) of
                                    (cands', pos') \<Rightarrow>
                                      tryRows tiles rnd d n cands' (st1\<lparr>x_rpos := pos'\<rparr>)))))"
| "tryRows tiles rnd d n [] st = Some (False, st)"
| "tryRows tiles rnd d n (r # rs) st =
     (case dfs tiles rnd d n
             ((chooseRow d r st)\<lparr>solutionRows := solutionRows (chooseRow d r st) @ [r]\<rparr>) of
        None \<Rightarrow> None
      | Some (True, st') \<Rightarrow> Some (True, st')
      | Some (False, st') \<Rightarrow>
          tryRows tiles rnd d n rs (unchooseRow d r (st'\<lparr>solutionRows := butlast (solutionRows st')\<rparr>)))"

record 's result =
  found :: nat
  layout :: "layout option"
  score :: "'s option"

text \<open>The capacity sum of \<open>solveFirstExactCover\<close>; \<open>None\<close> is \<open>Infinity\<close>.\<close>

definition maxAreaOf :: "tile list \<Rightarrow> int option" where
  "maxAreaOf tiles =
     foldl (\<lambda>a t. case a of
                     None \<Rightarrow> None
                   | Some m \<Rightarrow> (case count t of
                                 None \<Rightarrow> None
                               | Some c \<Rightarrow> Some (m + c * int (length (base t)))))
       (Some 0) tiles"

definition solveFirstExactCover ::
  "nat \<Rightarrow> (nat \<Rightarrow> nat) \<Rightarrow> nat \<Rightarrow> int \<Rightarrow> int \<Rightarrow> cell set \<Rightarrow> tile list \<Rightarrow> bool option
   \<Rightarrow> ('s result \<times> (int \<times> int) list \<times> nat) option" where
  "solveFirstExactCover fuel rnd pos0 W H holesSet tiles uniqueByBoardSymmetry =
     (case buildExactCoverData W H holesSet tiles of
        None \<Rightarrow> None
      | Some d \<Rightarrow>
          (let st0 = \<lparr>coveredCols = replicate (length (colToRows d)) False,
                      usedRow = replicate (length (rows d)) False,
                      x_usedCounts = replicate (length tiles) 0,
                      solutionRows = [], bannedRowsStack = [],
                      x_nodes = 0, x_rpos = pos0, x_posted = []\<rparr>
           in if (case maxAreaOf tiles of None \<Rightarrow> False | Some m \<Rightarrow> m < int (length (freeCells d)))
              then Some (\<lparr>found = 0, layout = None, score = None\<rparr>, [], pos0)
              else (case dfs tiles rnd d fuel st0 of
                      None \<Rightarrow> None
                    | Some (okFlag, st) \<Rightarrow>
                        if \<not> okFlag
                        then Some (\<lparr>found = 0, layout = None, score = None\<rparr>, x_posted st, x_rpos st)
                        else (let lay = map (\<lambda>r. \<lparr>ti = ti (x_placements d ! pid (rows d ! r)),
                                                    cells = cells (x_placements d ! pid (rows d ! r))\<rparr>)
                                          (solutionRows st);
                                  lay' = (if uniqueByBoardSymmetry = Some True then lay else lay)
                              in Some (\<lparr>found = 1, layout = Some lay', score = None\<rparr>,
                                       x_posted st, x_rpos st)))))"

definition solveFirst ::
  "nat \<Rightarrow> (nat \<Rightarrow> nat) \<Rightarrow> nat \<Rightarrow> int \<Rightarrow> int \<Rightarrow> cell set \<Rightarrow> tile list \<Rightarrow> bool option
   \<Rightarrow> ('s result \<times> (int \<times> int) list \<times> nat) option" where
  "solveFirst fuel rnd pos0 W H holesSet tiles uniqueByBoardSymmetry =
     solveFirstExactCover fuel rnd pos0 W H holesSet tiles uniqueByBoardSymmetry"

subsection \<open>Balanced mode and the message handler\<close>

record balancecfg =
  noBalance :: bool
  maxSolutionsToEvaluate :: "int option"
  hasWeights :: bool

text \<open>
  The value of the balance score is floating-point arithmetic and is not modelled: the
  number that \<open>balanceScore\<close> returns (\<open>scoreValue\<close>), the order \<open><\<close> on these numbers and
  the value \<open>Infinity\<close> are parameters. The numbers in \<open>weights\<close> and the desired mix of the
  balance configuration are read for that value only; \<open>hasWeights\<close> says whether the
  configuration carries a \<open>weights\<close> object at all.
\<close>

record 's scorer =
  scoreValue :: "int \<Rightarrow> int \<Rightarrow> tile list \<Rightarrow> layout \<Rightarrow> balancecfg \<Rightarrow> 's"
  fless :: "'s \<Rightarrow> 's \<Rightarrow> bool"
  finfinity :: "'s"

text \<open>
  \<open>balanceScore\<close>, with the exceptions it throws in the order in which the code reaches
  them: \<open>Array(W)\<close> in \<open>makeGrid\<close>, called once for each of the \<open>H\<close> rows, throws a RangeError
  when \<open>W\<close> is not an array length; \<open>g[y][x] = idx\<close> throws a TypeError at the first cell of
  the layout whose row \<open>y\<close> the grid does not have; \<open>tiles[p.ti].name\<close> throws one when the
  tile index is out of range; \<open>grid[0].length\<close> in \<open>seamPenalty\<close> throws one when the grid
  has no row; and \<open>weights.tileCountVariance\<close> throws one when there are no weights.
\<close>

definition balanceScore ::
  "'s scorer \<Rightarrow> int \<Rightarrow> int \<Rightarrow> tile list \<Rightarrow> layout \<Rightarrow> balancecfg \<Rightarrow> js_error + 's" where
  "balanceScore sc W H tiles lay cfg =
     (if 0 < H \<and> (W < 0 \<or> 4294967296 \<le> W) then Inl (Error ''Invalid array length'')
      else (case find (\<lambda>c. \<not> (0 \<le> snd c \<and> snd c < H)) (concat (map cells lay)) of
              Some c \<Rightarrow>
                Inl (Error (''Cannot set properties of undefined (setting '' @ [CHR 0x27]
                            @ showInt (fst c) @ [CHR 0x27] @ '')''))
            | None \<Rightarrow>
                if \<not> list_all (\<lambda>p. ti p < length tiles) lay
                then Inl (Error ''Cannot read properties of undefined (reading 'name')'')
                else if H \<le> 0
                then Inl (Error ''Cannot read properties of undefined (reading 'length')'')
                else if \<not> hasWeights cfg
                then Inl (Error ''Cannot read properties of undefined (reading 'tileCountVariance')'')
                else Inr (scoreValue sc W H tiles lay cfg)))"

text \<open>
  The loop of \<open>selectBestBalanced\<close>, with \<open>best\<close> and \<open>bestScore\<close> as accumulators; an
  exception of \<open>balanceScore\<close> ends it.
\<close>

fun selectLoop ::
  "'s scorer \<Rightarrow> int \<Rightarrow> int \<Rightarrow> tile list \<Rightarrow> balancecfg \<Rightarrow> layout list \<Rightarrow> layout option \<Rightarrow> 's
   \<Rightarrow> js_error + layout option \<times> 's" where
  "selectLoop sc W H tiles cfg [] best bestScore = Inr (best, bestScore)"
| "selectLoop sc W H tiles cfg (L # Ls) best bestScore =
     (case balanceScore sc W H tiles L cfg of
        Inl err \<Rightarrow> Inl err
      | Inr s \<Rightarrow>
          if fless sc s bestScore then selectLoop sc W H tiles cfg Ls (Some L) s
          else selectLoop sc W H tiles cfg Ls best bestScore)"

definition selectBestBalanced ::
  "'s scorer \<Rightarrow> int \<Rightarrow> int \<Rightarrow> tile list \<Rightarrow> layout list \<Rightarrow> balancecfg \<Rightarrow> js_error + layout option \<times> 's" where
  "selectBestBalanced sc W H tiles layouts cfg = selectLoop sc W H tiles cfg layouts None (finfinity sc)"

text \<open>
  \<open>solveBalanced\<close>: the exception thrown or the result returned, together with the progress
  events posted until then and the number of random draws made.
\<close>

definition solveBalanced ::
  "nat \<Rightarrow> (nat \<Rightarrow> nat) \<Rightarrow> nat \<Rightarrow> 's scorer \<Rightarrow> int \<Rightarrow> int \<Rightarrow> cell set \<Rightarrow> tile list \<Rightarrow> bool option
   \<Rightarrow> balancecfg \<Rightarrow> int option \<Rightarrow> ((js_error + 's result) \<times> (int \<times> int) list \<times> nat) option" where
  "solveBalanced fuel rnd pos0 sc W H holesSet tiles uniqueByBoardSymmetry balance cap =
     (case enumerateTilings fuel rnd pos0 W H holesSet tiles uniqueByBoardSymmetry
             (capSolutionsOf (maxSolutionsToEvaluate balance) cap)
             (Some (\<lambda>n f. if f mod 10 = 0 then [(n, f)] else [])) of
        None \<Rightarrow> None
      | Some (Inl err) \<Rightarrow> Some (Inl err, [], pos0)
      | Some (Inr r) \<Rightarrow>
          if length (en_solutions r) = 0
          then Some (Inr \<lparr>found = 0, layout = None, score = None\<rparr>, en_posted r, en_rpos r)
          else (case selectBestBalanced sc W H tiles (en_solutions r) balance of
                  Inl err \<Rightarrow> Some (Inl err, en_posted r, en_rpos r)
                | Inr (best, bestScore) \<Rightarrow>
                    Some (Inr \<lparr>found = length (en_solutions r), layout = best,
                               score = Some bestScore\<rparr>, en_posted r, en_rpos r)))"

datatype 's msg =
    Infeasible "reason list"
  | Result nat layout "'s option"
  | ErrorMsg string
  | Progress int int

fun terminal :: "'s msg \<Rightarrow> bool" where
  "terminal (Progress n f) = False"
| "terminal m = True"

record payload =
  p_W :: int
  p_H :: int
  p_holes :: "cell list"
  p_tileTypes :: "tile list"
  p_uniqueByBoardSymmetry :: "bool option"
  p_balance :: "balancecfg option"
  p_cap :: "int option"

text \<open>The end of the handler: \<open>if (!result.layout)\<close> posts \<open>infeasible\<close>, else \<open>result\<close>.\<close>

definition finish :: "'s result \<Rightarrow> 's msg list" where
  "finish res =
     (case layout res of
        None \<Rightarrow> [Infeasible [NoLayoutFound]]
      | Some L \<Rightarrow> [Result (found res) L (score res)])"

text \<open>
  \<open>self.onmessage\<close>: the list of the messages posted, in order; \<open>None\<close> when the handler
  does not return with the fuel given. With no \<open>balance\<close> in the payload, the argument
  \<open>balance.maxSolutionsToEvaluate\<close> of the call in \<open>solveBalanced\<close> throws a TypeError, which
  the handler catches like every other exception; the progress messages of the search
  have been posted by then.
\<close>

definition onmessage ::
  "nat \<Rightarrow> (nat \<Rightarrow> nat) \<Rightarrow> 's scorer \<Rightarrow> string \<Rightarrow> payload \<Rightarrow> 's msg list option" where
  "onmessage fuel rnd sc cmd pl =
     (if cmd \<noteq> ''solve'' then Some []
      else (let holesSet = set (p_holes pl);
                pf = preflight (p_W pl) (p_H pl) holesSet (p_tileTypes pl)
            in if \<not> ok pf then Some [Infeasible (reasons pf)]
               else (case p_balance pl of
                       None \<Rightarrow> Some [ErrorMsg ''Cannot read properties of undefined (reading 'maxSolutionsToEvaluate')'']
                     | Some bal \<Rightarrow>
                         if noBalance bal
                         then (case solveFirst fuel rnd 0 (p_W pl) (p_H pl) holesSet (p_tileTypes pl)
                                      (p_uniqueByBoardSymmetry pl) of
                                 None \<Rightarrow> None
                               | Some (res, prog, pos) \<Rightarrow>
                                   Some (map (\<lambda>(n, f). Progress n f) prog @ finish res))
                         else (case solveBalanced fuel rnd 0 sc (p_W pl) (p_H pl) holesSet
                                      (p_tileTypes pl) (p_uniqueByBoardSymmetry pl) bal (p_cap pl) of
                                 None \<Rightarrow> None
                               | Some (Inl (Error m), prog, pos) \<Rightarrow>
                                   Some (map (\<lambda>(n, f). Progress n f) prog @ [ErrorMsg m])
                               | Some (Inr res, prog, pos) \<Rightarrow>
                                   Some (map (\<lambda>(n, f). Progress n f) prog @ finish res)))))"

subsection \<open>Properties of layouts and inputs\<close>

text \<open>\<open>coverCount L c\<close>: the number of placements of the layout that contain the cell.\<close>

definition coverCount :: "layout \<Rightarrow> cell \<Rightarrow> nat" where
  "coverCount L c = length (filter (\<lambda>p. c \<in> set (cells p)) L)"

text \<open>
  A layout is an exact cover of the free cells when every free cell lies in exactly one
  placement and every cell of every placement is a free cell.
\<close>

definition exactCover :: "cell list \<Rightarrow> layout \<Rightarrow> bool" where
  "exactCover free L =
     (list_all (\<lambda>c. coverCount L c = 1) free
      \<and> list_all (\<lambda>p. list_all (\<lambda>c. c \<in> set free) (cells p)) L)"

definition typeCount :: "layout \<Rightarrow> nat \<Rightarrow> nat" where
  "typeCount L t = length (filter (\<lambda>p. ti p = t) L)"

text \<open>Every tile type with a finite count is used at most that many times.\<close>

definition withinStock :: "tile list \<Rightarrow> layout \<Rightarrow> bool" where
  "withinStock tiles L =
     list_all (\<lambda>t. case count (tiles ! t) of None \<Rightarrow> True | Some lim \<Rightarrow> int (typeCount L t) \<le> lim)
       [0..<length tiles]"

text \<open>
  The invariants of the data model: a base shape is not empty and its cells are distinct;
  a count, when given, is not negative.
\<close>

definition nonemptyBases :: "tile list \<Rightarrow> bool" where
  "nonemptyBases tiles = list_all (\<lambda>t. base t \<noteq> []) tiles"

definition distinctBases :: "tile list \<Rightarrow> bool" where
  "distinctBases tiles = list_all (\<lambda>t. distinct (base t)) tiles"

definition nonnegCounts :: "tile list \<Rightarrow> bool" where
  "nonnegCounts tiles = list_all (\<lambda>t. case count t of None \<Rightarrow> True | Some c \<Rightarrow> 0 \<le> c) tiles"

text \<open>An orientation has the size of the base shape, and distinct cells if the base has.\<close>

definition shapeLike :: "cell list \<Rightarrow> cell list \<Rightarrow> bool" where
  "shapeLike b c = (length c = length b \<and> (distinct b \<longrightarrow> distinct c))"

definition placementFrom :: "cell set \<Rightarrow> tile list \<Rightarrow> placement \<Rightarrow> bool" where
  "placementFrom B tiles p =
     (ti p < length tiles \<and> set (cells p) \<subseteq> B \<and>
      (\<exists>ori ox oy. ori \<in> set (orientations (base (tiles ! ti p)) (allowRot (tiles ! ti p))
                                   (allowReflect (tiles ! ti p)))
                   \<and> cells p = map (\<lambda>(x, y). (x + ox, y + oy)) ori))"

definition bcOK :: "placement list \<Rightarrow> (cell \<Rightarrow> nat list option) \<Rightarrow> bool" where
  "bcOK ps bc = (\<forall>k l. bc k = Some l \<longrightarrow> (\<forall>i \<in> set l. i < length ps \<and> k \<in> set (cells (ps ! i))))"

definition pstOK :: "cell set \<Rightarrow> tile list \<Rightarrow> pstate \<Rightarrow> bool" where
  "pstOK B tiles st = ((\<forall>p \<in> set (fst st). placementFrom B tiles p) \<and> bcOK (fst st) (snd st))"

text \<open>
  The facts about the captured constants that the search relies on, and the invariant that
  ties the mutable variables of the search together.
\<close>

definition envOK :: "env \<Rightarrow> bool" where
  "envOK e =
     ((\<forall>p \<in> set (e_placements e). placementFrom (e_boardSet e) (e_tiles e) p)
      \<and> bcOK (e_placements e) (e_byCell e)
      \<and> e_boardSet e = set (e_allCells e)
      \<and> distinct (e_allCells e)
      \<and> e_totalCells e = length (e_allCells e)
      \<and> distinctBases (e_tiles e))"

definition cellsOf :: "env \<Rightarrow> nat list \<Rightarrow> cell list" where
  "cellsOf e pids = concat (map (\<lambda>i. cells (e_placements e ! i)) pids)"

definition typeUses :: "env \<Rightarrow> nat list \<Rightarrow> nat \<Rightarrow> nat" where
  "typeUses e pids t = length (filter (\<lambda>i. ti (e_placements e ! i) = t) pids)"

definition stOK :: "env \<Rightarrow> est \<Rightarrow> bool" where
  "stOK e st =
     ((\<forall>i \<in> set (usedPlacements st). i < length (e_placements e))
      \<and> distinct (cellsOf e (usedPlacements st))
      \<and> covered st = set (cellsOf e (usedPlacements st))
      \<and> coveredCount st = int (length (cellsOf e (usedPlacements st)))
      \<and> length (usedCounts st) = length (e_tiles e)
      \<and> (\<forall>t < length (e_tiles e). usedCounts st ! t = int (typeUses e (usedPlacements st) t))
      \<and> (nonnegCounts (e_tiles e) \<longrightarrow>
           (\<forall>t < length (e_tiles e). \<forall>lim. count (e_tiles e ! t) = Some lim \<longrightarrow> usedCounts st ! t \<le> lim)))"

definition solsOK :: "env \<Rightarrow> est \<Rightarrow> bool" where
  "solsOK e st =
     (\<forall>L \<in> set (solutions st). exactCover (e_allCells e) L
                               \<and> (nonnegCounts (e_tiles e) \<longrightarrow> withinStock (e_tiles e) L))"

definition placeable :: "env \<Rightarrow> est \<Rightarrow> nat \<Rightarrow> bool" where
  "placeable e st i =
     (i < length (e_placements e)
      \<and> set (cells (e_placements e ! i)) \<inter> covered st = {}
      \<and> stockLeft (e_tiles e) (usedCounts st) (ti (e_placements e ! i)))"

definition sameCore :: "est \<Rightarrow> est \<Rightarrow> bool" where
  "sameCore a b =
     (covered a = covered b \<and> usedCounts a = usedCounts b
      \<and> usedPlacements a = usedPlacements b \<and> coveredCount a = coveredCount b)"

definition capReached :: "env \<Rightarrow> est \<Rightarrow> bool" where
  "capReached e st = (int (length (solutions st)) \<ge> e_cap e)"

text \<open>
  What a call leaves behind, relative to the state \<open>st0\<close> it is expected to restore: every
  recorded solution is an exact cover within stock, and either the cap is reached or the
  search variables are those of \<open>st0\<close>.
\<close>

definition post :: "env \<Rightarrow> est \<Rightarrow> est \<Rightarrow> bool" where
  "post e st' st0 = (solsOK e st' \<and> (capReached e st' \<or> sameCore st' st0))"

definition recPost :: "env \<Rightarrow> nat \<Rightarrow> bool" where
  "recPost e n = (\<forall>st st'. stOK e st \<longrightarrow> solsOK e st \<longrightarrow> rec e n st = Some st' \<longrightarrow> post e st' st)"

definition loopPost :: "env \<Rightarrow> nat \<Rightarrow> bool" where
  "loopPost e n =
     (\<forall>tr st st'. stOK e st \<longrightarrow> solsOK e st \<longrightarrow> loop e n tr st = Some st'
                   \<longrightarrow> post e st' (unwind e tr st))"

definition branchPost :: "env \<Rightarrow> nat \<Rightarrow> bool" where
  "branchPost e n =
     (\<forall>tr pids st st'. stOK e st \<longrightarrow> solsOK e st \<longrightarrow> (\<forall>i \<in> set pids. placeable e st i)
                        \<longrightarrow> branch e n tr pids st = Some st' \<longrightarrow> post e st' (unwind e tr st))"

definition layoutOf :: "env \<Rightarrow> nat list \<Rightarrow> layout" where
  "layoutOf e pids = map (\<lambda>i. \<lparr>ti = ti (e_placements e ! i), cells = cells (e_placements e ! i)\<rparr>) pids"

text \<open>The environment and the initial state that \<open>enumerateTilings\<close> builds.\<close>

definition envOf :: "(nat \<Rightarrow> nat) \<Rightarrow> int \<Rightarrow> int \<Rightarrow> cell set \<Rightarrow> tile list \<Rightarrow> bool option \<Rightarrow> int
                     \<Rightarrow> (int \<Rightarrow> int \<Rightarrow> (int \<times> int) list) option \<Rightarrow> placement list
                     \<Rightarrow> (cell \<Rightarrow> nat list option) \<Rightarrow> env" where
  "envOf rnd W H holes tiles u cap cb ps bc =
     \<lparr>e_W = W, e_H = H, e_tiles = tiles,
      e_unique = (case u of None \<Rightarrow> True | Some b \<Rightarrow> b),
      e_cap = cap, e_progressCb = cb, e_rnd = rnd,
      e_placements = ps, e_byCell = bc, e_allCells = boardCells W H holes,
      e_totalCells = length (boardCells W H holes), e_boardSet = set (boardCells W H holes)\<rparr>"

definition st0Of :: "tile list \<Rightarrow> nat \<Rightarrow> est" where
  "st0Of tiles pos0 =
     \<lparr>covered = {}, usedCounts = replicate (length tiles) 0, usedPlacements = [], seen = {},
      solutions = [], coveredCount = 0, nodes = 0, rpos = pos0, posted = []\<rparr>"

definition areaThrows :: "int \<Rightarrow> int \<Rightarrow> cell set \<Rightarrow> tile list \<Rightarrow> bool" where
  "areaThrows W H holes tiles =
     (list_all (\<lambda>t. count t \<noteq> None) tiles
      \<and> foldl (\<lambda>a t. a + the (count t) * int (length (base t))) 0 tiles
          < int (length (boardCells W H holes)))"

text \<open>The number of free cells still to cover, which bounds the fuel the search needs.\<close>

definition remaining :: "env \<Rightarrow> est \<Rightarrow> nat" where
  "remaining e st = e_totalCells e - length (cellsOf e (usedPlacements st))"

definition recRet :: "env \<Rightarrow> nat \<Rightarrow> bool" where
  "recRet e n =
     (\<forall>st. stOK e st \<longrightarrow> solsOK e st \<longrightarrow> 3 * remaining e st + 2 \<le> n \<longrightarrow> rec e n st \<noteq> None)"

definition loopRet :: "env \<Rightarrow> nat \<Rightarrow> bool" where
  "loopRet e n =
     (\<forall>tr st. stOK e st \<longrightarrow> solsOK e st \<longrightarrow> 3 * remaining e st + 1 \<le> n \<longrightarrow> loop e n tr st \<noteq> None)"

definition branchRet :: "env \<Rightarrow> nat \<Rightarrow> bool" where
  "branchRet e n =
     (\<forall>tr pids st. stOK e st \<longrightarrow> solsOK e st \<longrightarrow> (\<forall>i \<in> set pids. placeable e st i)
                    \<longrightarrow> 3 * remaining e st \<le> n \<longrightarrow> branch e n tr pids st \<noteq> None)"

text \<open>The facts about the exact-cover matrix that the first-solution search relies on.\<close>

definition xdOK :: "tile list \<Rightarrow> xdata \<Rightarrow> bool" where
  "xdOK tiles d =
     (distinct (freeCells d)
      \<and> length (colToRows d) = length (freeCells d)
      \<and> (\<forall>c < length (colToRows d). \<forall>r \<in> set (colToRows d ! c).
            r < length (rows d) \<and> c \<in> set (cols (rows d ! r)))
      \<and> (\<forall>rw \<in> set (rows d).
            pid rw < length (x_placements d)
            \<and> r_ti rw = ti (x_placements d ! pid rw)
            \<and> map (colIndex d) (cells (x_placements d ! pid rw)) = map Some (cols rw))
      \<and> (\<forall>k c. colIndex d k = Some c \<longleftrightarrow> (c < length (freeCells d) \<and> freeCells d ! c = k))
      \<and> (\<forall>p \<in> set (x_placements d). placementFrom (set (freeCells d)) tiles p))"

definition ctrOK :: "nat \<Rightarrow> row list \<Rightarrow> nat list list \<Rightarrow> bool" where
  "ctrOK n rs ctr =
     (length ctr = n \<and> (\<forall>c < n. \<forall>r \<in> set (ctr ! c). r < length rs \<and> c \<in> set (cols (rs ! r))))"

text \<open>The invariant of the first-solution search and the candidates it may choose.\<close>

definition rowCount :: "xdata \<Rightarrow> nat list \<Rightarrow> nat \<Rightarrow> nat" where
  "rowCount d rs c = length (filter (\<lambda>r. c \<in> set (cols (rows d ! r))) rs)"

definition rowUses :: "xdata \<Rightarrow> nat list \<Rightarrow> nat \<Rightarrow> nat" where
  "rowUses d rs t = length (filter (\<lambda>r. r_ti (rows d ! r) = t) rs)"

definition xstOK :: "tile list \<Rightarrow> xdata \<Rightarrow> xst \<Rightarrow> bool" where
  "xstOK tiles d st =
     (length (coveredCols st) = length (freeCells d)
      \<and> (\<forall>r \<in> set (solutionRows st). r < length (rows d))
      \<and> (\<forall>c < length (freeCells d).
            rowCount d (solutionRows st) c = (if coveredCols st ! c then 1 else 0))
      \<and> length (x_usedCounts st) = length tiles
      \<and> (\<forall>t < length tiles. x_usedCounts st ! t = int (rowUses d (solutionRows st) t))
      \<and> (nonnegCounts tiles \<longrightarrow>
           (\<forall>t < length tiles. \<forall>lim. count (tiles ! t) = Some lim \<longrightarrow> x_usedCounts st ! t \<le> lim)))"

definition candOK :: "tile list \<Rightarrow> xdata \<Rightarrow> xst \<Rightarrow> nat \<Rightarrow> bool" where
  "candOK tiles d st r =
     (r < length (rows d)
      \<and> cols (rows d ! r) \<noteq> []
      \<and> (\<forall>c \<in> set (cols (rows d ! r)). c < length (freeCells d) \<and> \<not> coveredCols st ! c)
      \<and> stockLeft tiles (x_usedCounts st) (r_ti (rows d ! r)))"

definition xsame :: "xst \<Rightarrow> xst \<Rightarrow> bool" where
  "xsame a b =
     (coveredCols a = coveredCols b \<and> solutionRows a = solutionRows b
      \<and> x_usedCounts a = x_usedCounts b \<and> bannedRowsStack a = bannedRowsStack b)"

text \<open>The state after \<open>chooseRow(r); solutionRows.push(r)\<close>, and after the matching undo.\<close>

definition chosen :: "xdata \<Rightarrow> nat \<Rightarrow> xst \<Rightarrow> xst" where
  "chosen d r st = (chooseRow d r st)\<lparr>solutionRows := solutionRows (chooseRow d r st) @ [r]\<rparr>"

definition unchosen :: "xdata \<Rightarrow> nat \<Rightarrow> xst \<Rightarrow> xst" where
  "unchosen d r st = unchooseRow d r (st\<lparr>solutionRows := butlast (solutionRows st)\<rparr>)"

definition uncov :: "xst \<Rightarrow> nat" where
  "uncov st = card {i. i < length (coveredCols st) \<and> \<not> coveredCols st ! i}"

text \<open>
  What a call of \<open>dfs\<close> leaves behind: on \<open>true\<close> a consistent state with every column
  covered, on \<open>false\<close> the search variables it was called with.
\<close>

definition xpost :: "tile list \<Rightarrow> xdata \<Rightarrow> xst \<Rightarrow> bool \<times> xst \<Rightarrow> bool" where
  "xpost tiles d st res =
     (if fst res then xstOK tiles d (snd res) \<and> allCovered (snd res) else xsame (snd res) st)"

definition dfsPost :: "tile list \<Rightarrow> (nat \<Rightarrow> nat) \<Rightarrow> xdata \<Rightarrow> nat \<Rightarrow> bool" where
  "dfsPost tiles rnd d n =
     (\<forall>st res. xstOK tiles d st \<longrightarrow> dfs tiles rnd d n st = Some res \<longrightarrow> xpost tiles d st res)"

definition tryPost :: "tile list \<Rightarrow> (nat \<Rightarrow> nat) \<Rightarrow> xdata \<Rightarrow> nat \<Rightarrow> bool" where
  "tryPost tiles rnd d n =
     (\<forall>rs st res. xstOK tiles d st \<longrightarrow> (\<forall>r \<in> set rs. candOK tiles d st r)
                   \<longrightarrow> tryRows tiles rnd d n rs st = Some res \<longrightarrow> xpost tiles d st res)"

definition dfsRet :: "tile list \<Rightarrow> (nat \<Rightarrow> nat) \<Rightarrow> xdata \<Rightarrow> nat \<Rightarrow> bool" where
  "dfsRet tiles rnd d n =
     (\<forall>st. xstOK tiles d st \<longrightarrow> uncov st + 1 \<le> n \<longrightarrow> dfs tiles rnd d n st \<noteq> None)"

definition tryRet :: "tile list \<Rightarrow> (nat \<Rightarrow> nat) \<Rightarrow> xdata \<Rightarrow> nat \<Rightarrow> bool" where
  "tryRet tiles rnd d n =
     (\<forall>rs st. xstOK tiles d st \<longrightarrow> (\<forall>r \<in> set rs. candOK tiles d st r) \<longrightarrow> uncov st \<le> n
               \<longrightarrow> tryRows tiles rnd d n rs st \<noteq> None)"

definition xlayoutOf :: "xdata \<Rightarrow> nat list \<Rightarrow> layout" where
  "xlayoutOf d rs =
     map (\<lambda>r. \<lparr>ti = ti (x_placements d ! pid (rows d ! r)),
                cells = cells (x_placements d ! pid (rows d ! r))\<rparr>) rs"

definition xst0Of :: "tile list \<Rightarrow> xdata \<Rightarrow> nat \<Rightarrow> xst" where
  "xst0Of tiles d pos0 =
     \<lparr>coveredCols = replicate (length (colToRows d)) False,
      usedRow = replicate (length (rows d)) False,
      x_usedCounts = replicate (length tiles) 0,
      solutionRows = [], bannedRowsStack = [],
      x_nodes = 0, x_rpos = pos0, x_posted = []\<rparr>"

text \<open>The search reads the reverse index only at the board cells.\<close>

definition sameIndex :: "env \<Rightarrow> env \<Rightarrow> bool" where
  "sameIndex e e' =
     (e' = e\<lparr>e_byCell := e_byCell e'\<rparr> \<and> (\<forall>k \<in> set (e_allCells e). e_byCell e k = e_byCell e' k))"

text \<open>
  A 3-by-2 instance: the board without holes, and one monomino, one domino and one 1-by-3
  tromino in stock, none of them rotated or reflected. \<open>placements3\<close> and \<open>index3\<close> are the
  placement table and the reverse index (at the board cells) that \<open>precomputePlacements\<close>
  builds for it.
\<close>

definition tiles3 :: "tile list" where
  "tiles3 =
     [\<lparr>name = ''mono'', base = [(0, 0)], allowRot = Some False, allowReflect = Some False, count = Some 1\<rparr>,
      \<lparr>name = ''domino'', base = [(0, 0), (1, 0)], allowRot = Some False, allowReflect = Some False, count = Some 1\<rparr>,
      \<lparr>name = ''tromino'', base = [(0, 0), (1, 0), (2, 0)], allowRot = Some False, allowReflect = Some False, count = Some 1\<rparr>]"

definition placements3 :: "placement list" where
  "placements3 =
     [\<lparr>ti = 0, cells = [(0, 0)]\<rparr>, \<lparr>ti = 0, cells = [(1, 0)]\<rparr>, \<lparr>ti = 0, cells = [(2, 0)]\<rparr>,
      \<lparr>ti = 0, cells = [(0, 1)]\<rparr>, \<lparr>ti = 0, cells = [(1, 1)]\<rparr>, \<lparr>ti = 0, cells = [(2, 1)]\<rparr>,
      \<lparr>ti = 1, cells = [(0, 0), (1, 0)]\<rparr>, \<lparr>ti = 1, cells = [(1, 0), (2, 0)]\<rparr>,
      \<lparr>ti = 1, cells = [(0, 1), (1, 1)]\<rparr>, \<lparr>ti = 1, cells = [(1, 1), (2, 1)]\<rparr>,
      \<lparr>ti = 2, cells = [(0, 0), (1, 0), (2, 0)]\<rparr>, \<lparr>ti = 2, cells = [(0, 1), (1, 1), (2, 1)]\<rparr>]"

definition index3 :: "(cell \<times> nat list) list" where
  "index3 =
     [((0, 0), [0, 6, 10]), ((1, 0), [1, 6, 7, 10]), ((2, 0), [2, 7, 10]),
      ((0, 1), [3, 8, 11]), ((1, 1), [4, 8, 9, 11]), ((2, 1), [5, 9, 11])]"

definition env3 :: env where
  "env3 = envOf (\<lambda>_. 0) 3 2 {} tiles3 (Some True) 1000 None placements3 (map_of index3)"

text \<open>
  The chain as claim C9 words it, for comparison with \<open>capSolutionsOf\<close>: each value is
  taken "when it is a positive number".
\<close>

definition capChainClaimed :: "int option \<Rightarrow> int option \<Rightarrow> int" where
  "capChainClaimed mte cap =
     (case mte of
        Some m \<Rightarrow> if 0 < m then m else (case cap of Some c \<Rightarrow> if 0 < c then c else 1000 | None \<Rightarrow> 1000)
      | None \<Rightarrow> (case cap of Some c \<Rightarrow> if 0 < c then c else 1000 | None \<Rightarrow> 1000))"

section \<open>Verified properties\<close>

section \<open>Board symmetry transforms\<close>




section \<open>Canonical key\<close>

lemma keepsBoard_identity: "keepsBoard boardSet (\<lambda>x y. (x, y))"
  by (simp add: keepsBoard_def split: option.splits)

lemma foldl_canonStep_Some: "foldl (canonStep lay boardSet) (Some b) T \<noteq> None"
  by (induction T arbitrary: b) (simp_all add: canonStep_def Let_def)

lemma canonStep_identity_first:
  "canonStep lay boardSet None (\<lambda>x y. (x, y)) = Some (serialize (transformLayout (\<lambda>x y. (x, y)) lay))"
  by (simp add: canonStep_def keepsBoard_identity)

lemma transforms_start_with_identity:
  "\<exists>rest. (if useSym then boardSymTransforms W H else [\<lambda>x y. (x, y)]) = (\<lambda>x y. (x, y)) # rest"
  by (simp add: boardSymTransforms_def Let_def)

text \<open>
  C10: for every layout and every board free set (also when no board set is passed),
  \<open>canonicalKey\<close> returns a string, never \<open>null\<close>: the first transform is the identity, it
  passes the free-set test, and once a string is held the loop keeps one.
\<close>

theorem C10_canonicalKey_not_null:
  "\<exists>s. canonicalKey lay W H tiles useSym boardSet = Some s"
proof -
  obtain rest where T: "(if useSym then boardSymTransforms W H else [\<lambda>x y. (x, y)]) = (\<lambda>x y. (x, y)) # rest"
    using transforms_start_with_identity by blast
  have "canonicalKey lay W H tiles useSym boardSet
        = foldl (canonStep lay boardSet) (Some (serialize (transformLayout (\<lambda>x y. (x, y)) lay))) rest"
    unfolding canonicalKey_def Let_def T by (simp add: canonStep_identity_first)
  then show ?thesis
    using foldl_canonStep_Some [of lay boardSet "serialize (transformLayout (\<lambda>x y. (x, y)) lay)" rest]
    by auto
qed

theorem C10_canonicalKey_not_null_witness:
  "\<exists>s. canonicalKey [\<lparr>ti = 0, cells = [(0, 0), (1, 0)]\<rparr>, \<lparr>ti = 0, cells = [(0, 1), (1, 1)]\<rparr>]
          2 2 [] True (Some {(0, 0), (1, 0), (0, 1), (1, 1)}) = Some s"
  using C10_canonicalKey_not_null
    [of "[\<lparr>ti = 0, cells = [(0, 0), (1, 0)]\<rparr>, \<lparr>ti = 0, cells = [(0, 1), (1, 1)]\<rparr>]" 2 2 "[]" True
        "Some {(0, 0), (1, 0), (0, 1), (1, 1)}"]
  by simp

section \<open>Pre-flight\<close>

text \<open>
  C3 (the code at the failing input): on the 2-by-2 board with holes at (0,0) and (1,1) the
  two free cells have the same colour, so the board has a black/white imbalance of 2. The
  only tile in stock is the domino, which is parity-neutral; a monomino is listed with
  count 0. The parity test looks at every listed tile, finds the monomino not neutral,
  and does not fire: \<open>preflight\<close> returns \<open>ok = true\<close> and no reason at all. Without the
  out-of-stock monomino the same board is rejected with the parity reason.
\<close>

theorem C3_preflight_counts_out_of_stock_tiles:
  "preflight 2 2 {(0, 0), (1, 1)}
     [\<lparr>name = ''domino'', base = [(0, 0), (1, 0)], allowRot = Some True, allowReflect = Some False, count = None\<rparr>,
      \<lparr>name = ''mono'', base = [(0, 0)], allowRot = Some True, allowReflect = Some False, count = Some 0\<rparr>]
   = \<lparr>ok = True, reasons = []\<rparr>
   \<and> preflight 2 2 {(0, 0), (1, 1)}
     [\<lparr>name = ''domino'', base = [(0, 0), (1, 0)], allowRot = Some True, allowReflect = Some False, count = None\<rparr>]
   = \<lparr>ok = False, reasons = [ParityMismatch 2]\<rparr>"
  by code_simp

section \<open>Solution cap of the balanced mode\<close>

text \<open>
  C9 (as stated): the effective cap is \<open>maxSolutionsToEvaluate\<close> when it is a positive
  number, otherwise the top-level cap when that is positive, otherwise 1000. With
  \<open>maxSolutionsToEvaluate = -1\<close> and \<open>cap = 5\<close> the claim gives 5, the code passes -1.
\<close>

theorem C9_negative_cap_counterexample:
  "capSolutionsOf (Some (- 1)) (Some 5) = - 1 \<and> capChainClaimed (Some (- 1)) (Some 5) = 5"
  by (simp add: capSolutionsOf_def capChainClaimed_def)

text \<open>
  C9 (amended): the effective cap is \<open>maxSolutionsToEvaluate\<close> when it is a nonzero number
  (positive or negative), otherwise the top-level cap when that is a nonzero number,
  otherwise 1000. A value of 0 or an absent value falls through the chain; whenever neither
  value is negative the result is the one the claim describes.
\<close>

theorem C9_cap_chain:
  "(m \<noteq> 0 \<longrightarrow> capSolutionsOf (Some m) cap = m)
   \<and> capSolutionsOf (Some 0) cap = capSolutionsOf None cap
   \<and> (c \<noteq> 0 \<longrightarrow> capSolutionsOf None (Some c) = c)
   \<and> capSolutionsOf None (Some 0) = 1000
   \<and> capSolutionsOf None None = 1000
   \<and> ((\<forall>v. mo = Some v \<longrightarrow> 0 \<le> v) \<and> (\<forall>v. co = Some v \<longrightarrow> 0 \<le> v)
        \<longrightarrow> capSolutionsOf mo co = capChainClaimed mo co)"
  by (auto simp: capSolutionsOf_def capChainClaimed_def split: option.splits)

theorem C9_cap_chain_witness:
  "capSolutionsOf (Some 7) (Some 5) = 7
   \<and> capSolutionsOf (Some 0) (Some 5) = 5
   \<and> capSolutionsOf None (Some 5) = 5
   \<and> capSolutionsOf (Some 0) (Some 5) = capChainClaimed (Some 0) (Some 5)"
  using C9_cap_chain [of 7 "Some 5" 5 "Some 0" "Some 5"]
  by (simp add: capSolutionsOf_def)

section \<open>Sorting, orientations and placements\<close>

lemma mset_js_insort: "mset (js_insort cmp x xs) = add_mset x (mset xs)"
  by (induction xs) auto

lemma mset_js_sort: "mset (js_sort cmp xs) = mset xs"
  unfolding js_sort_def by (induction xs) (auto simp: mset_js_insort)

lemma set_js_sort: "set (js_sort cmp xs) = set xs"
  using mset_js_sort [of cmp xs] by (metis set_mset_mset)

lemma length_js_sort: "length (js_sort cmp xs) = length xs"
  using mset_js_sort [of cmp xs] by (metis size_mset)

lemma distinct_js_sort: "distinct (js_sort cmp xs) = distinct xs"
  using mset_js_sort [of cmp xs] by (metis distinct_count_atmost_1 set_mset_mset)

lemma normShape_length: "length (normShape cs) = length cs"
  by (simp add: normShape_def Let_def length_js_sort)

lemma inj_translate: "inj (\<lambda>(x::int, y::int). (x - a, y - b))"
  by (auto simp: inj_def)

lemma normShape_distinct: "distinct cs \<Longrightarrow> distinct (normShape cs)"
  unfolding normShape_def Let_def distinct_js_sort
  by (simp add: distinct_map inj_on_subset [OF inj_translate subset_UNIV])

lemma rot90_length: "length (rot90 cs) = length cs" by (simp add: rot90_def)
lemma reflX_length: "length (reflX cs) = length cs" by (simp add: reflX_def)
lemma inj_rot: "inj (\<lambda>(x::int, y::int). (- y, x))"
  by (auto simp: inj_def)

lemma inj_refl: "inj (\<lambda>(x::int, y::int). (- x, y))"
  by (auto simp: inj_def)

lemma rot90_distinct: "distinct cs \<Longrightarrow> distinct (rot90 cs)"
  unfolding rot90_def by (simp add: distinct_map inj_on_subset [OF inj_rot subset_UNIV])

lemma reflX_distinct: "distinct cs \<Longrightarrow> distinct (reflX cs)"
  unfolding reflX_def by (simp add: distinct_map inj_on_subset [OF inj_refl subset_UNIV])

lemma shapeLike_refl: "shapeLike b b" by (simp add: shapeLike_def)
lemma shapeLike_rot90: "shapeLike b c \<Longrightarrow> shapeLike b (rot90 c)"
  by (simp add: shapeLike_def rot90_length rot90_distinct)
lemma shapeLike_reflX: "shapeLike b c \<Longrightarrow> shapeLike b (reflX c)"
  by (simp add: shapeLike_def reflX_length reflX_distinct)
lemma shapeLike_normShape: "shapeLike b c \<Longrightarrow> shapeLike b (normShape c)"
  by (simp add: shapeLike_def normShape_length normShape_distinct)

lemma pushSeen_shapeLike:
  "\<forall>o' \<in> set sn. shapeLike b o' \<Longrightarrow> shapeLike b c \<Longrightarrow> \<forall>o' \<in> set (pushSeen c sn). shapeLike b o'"
  by (auto simp: pushSeen_def Let_def shapeLike_normShape)

lemma orientStep_shapeLike:
  assumes "\<forall>o' \<in> set sn. shapeLike b o'" and "shapeLike b c"
  shows "\<forall>o' \<in> set (orientStep rf sn c). shapeLike b o'"
proof -
  have 1: "\<forall>o' \<in> set (pushSeen c sn). shapeLike b o'"
    using pushSeen_shapeLike [OF assms] .
  have 2: "\<forall>o' \<in> set (pushSeen (reflX c) (pushSeen c sn)). shapeLike b o'"
    using pushSeen_shapeLike [OF 1 shapeLike_reflX [OF assms(2)]] .
  show ?thesis
    unfolding orientStep_def Let_def using 1 2 by (cases rf) simp_all
qed

lemma orient_fold_shapeLike:
  "\<forall>o' \<in> set sn. shapeLike b o' \<Longrightarrow> \<forall>c \<in> set cand. shapeLike b c \<Longrightarrow>
   \<forall>o' \<in> set (foldl (orientStep rf) sn cand). shapeLike b o'"
proof (induction cand arbitrary: sn)
  case Nil
  then show ?case by simp
next
  case (Cons c cand)
  have c: "shapeLike b c" using Cons.prems(2) by simp
  have rest: "\<forall>c \<in> set cand. shapeLike b c" using Cons.prems(2) by simp
  have "\<forall>o' \<in> set (foldl (orientStep rf) (orientStep rf sn c) cand). shapeLike b o'"
    using Cons.IH [OF orientStep_shapeLike [OF Cons.prems(1) c] rest] .
  then show ?case by simp
qed

lemma orientations_shapeLike:
  assumes "ori \<in> set (orientations b r f)"
  shows "shapeLike b ori"
proof -
  have cand: "\<forall>c \<in> set (b # (if (case r of None \<Rightarrow> True | Some x \<Rightarrow> x)
             then [rot90 b, rot90 (rot90 b), rot90 (rot90 (rot90 b))] else [])). shapeLike b c"
    by (auto simp: shapeLike_refl shapeLike_rot90)
  have "\<forall>o' \<in> set (orientations b r f). shapeLike b o'"
    unfolding orientations_def by (rule orient_fold_shapeLike [OF _ cand]) simp
  with assms show ?thesis by blast
qed

lemma byCell_fold_ok:
  assumes "\<forall>k l. m k = Some l \<longrightarrow> (\<forall>i \<in> set l. (i < n \<and> k \<in> set (cells (ps ! i))) \<or> (i = n \<and> k \<in> A))"
    and "set cs \<subseteq> A"
  shows "\<forall>k l. foldl (\<lambda>m k. m(k \<mapsto> (case m k of None \<Rightarrow> [] | Some l \<Rightarrow> l) @ [n])) m cs k = Some l
           \<longrightarrow> (\<forall>i \<in> set l. (i < n \<and> k \<in> set (cells (ps ! i))) \<or> (i = n \<and> k \<in> A))"
  using assms
proof (induction cs arbitrary: m)
  case Nil
  then show ?case by simp
next
  case (Cons c cs)
  have c: "c \<in> A" and cs: "set cs \<subseteq> A" using Cons.prems(2) by auto
  have step: "\<forall>k l. (m(c \<mapsto> (case m c of None \<Rightarrow> [] | Some l \<Rightarrow> l) @ [n])) k = Some l
           \<longrightarrow> (\<forall>i \<in> set l. (i < n \<and> k \<in> set (cells (ps ! i))) \<or> (i = n \<and> k \<in> A))"
  proof (intro allI impI ballI)
    fix k l i
    assume kl: "(m(c \<mapsto> (case m c of None \<Rightarrow> [] | Some l \<Rightarrow> l) @ [n])) k = Some l" and i: "i \<in> set l"
    show "(i < n \<and> k \<in> set (cells (ps ! i))) \<or> (i = n \<and> k \<in> A)"
    proof (cases "k = c")
      case False
      then have "m k = Some l" using kl by simp
      then show ?thesis using Cons.prems(1) i by blast
    next
      case True
      then have l: "l = (case m c of None \<Rightarrow> [] | Some l \<Rightarrow> l) @ [n]" using kl by simp
      show ?thesis
      proof (cases "m c")
        case None
        then show ?thesis using l i c True by simp
      next
        case (Some l0)
        then have "i \<in> set l0 \<or> i = n" using l i by auto
        then show ?thesis using Cons.prems(1) Some c True by blast
      qed
    qed
  qed
  show ?case using Cons.IH [OF step cs] by simp
qed

lemma pushPlacement_ok:
  assumes "pstOK B tiles st" and "placementFrom B tiles \<lparr>ti = tix, cells = acells\<rparr>"
  shows "pstOK B tiles (pushPlacement tix acells st)"
proof -
  obtain ps bc where st: "st = (ps, bc)" by (cases st)
  let ?p = "\<lparr>ti = tix, cells = acells\<rparr>"
  let ?bc = "foldl (\<lambda>m k. m(k \<mapsto> (case m k of None \<Rightarrow> [] | Some l \<Rightarrow> l) @ [length ps])) bc acells"
  have old: "\<forall>k l. bc k = Some l \<longrightarrow> (\<forall>i \<in> set l. (i < length ps \<and> k \<in> set (cells (ps ! i)))
                 \<or> (i = length ps \<and> k \<in> set acells))"
    using assms(1) by (auto simp: pstOK_def bcOK_def st)
  have new: "\<forall>k l. ?bc k = Some l \<longrightarrow> (\<forall>i \<in> set l. (i < length ps \<and> k \<in> set (cells (ps ! i)))
                 \<or> (i = length ps \<and> k \<in> set acells))"
    by (rule byCell_fold_ok [OF old]) simp
  have "bcOK (ps @ [?p]) ?bc"
    unfolding bcOK_def
  proof (intro allI impI ballI)
    fix k l i assume "?bc k = Some l" and "i \<in> set l"
    with new have "(i < length ps \<and> k \<in> set (cells (ps ! i))) \<or> (i = length ps \<and> k \<in> set acells)"
      by blast
    then show "i < length (ps @ [?p]) \<and> k \<in> set (cells ((ps @ [?p]) ! i))"
      by (auto simp: nth_append)
  qed
  moreover have "\<forall>p \<in> set (ps @ [?p]). placementFrom B tiles p"
    using assms by (auto simp: pstOK_def st)
  ultimately show ?thesis
    by (simp add: pstOK_def pushPlacement_def st)
qed

lemma tryOffset_ok:
  assumes "pstOK B tiles st" and "tix < length tiles"
    and "ori \<in> set (orientations (base (tiles ! tix)) (allowRot (tiles ! tix)) (allowReflect (tiles ! tix)))"
  shows "pstOK B tiles (tryOffset B tix ori oy ox st)"
proof (cases "list_all (\<lambda>c. c \<in> B) (map (\<lambda>(x, y). (x + ox, y + oy)) ori)")
  case True
  then have "set (map (\<lambda>(x, y). (x + ox, y + oy)) ori) \<subseteq> B"
    by (auto simp: list_all_iff)
  then have "placementFrom B tiles \<lparr>ti = tix, cells = map (\<lambda>(x, y). (x + ox, y + oy)) ori\<rparr>"
    unfolding placementFrom_def using assms(2,3) by auto
  then show ?thesis
    using True pushPlacement_ok [OF assms(1)] by (simp add: tryOffset_def Let_def)
next
  case False
  then show ?thesis using assms(1) by (simp add: tryOffset_def Let_def)
qed

lemma foldl_invariant:
  assumes "P s" and "\<And>s x. P s \<Longrightarrow> x \<in> set xs \<Longrightarrow> P (f s x)"
  shows "P (foldl f s xs)"
  using assms by (induction xs arbitrary: s) auto

lemma placeOrientation_ok:
  assumes "pstOK B tiles st" and "tix < length tiles"
    and "ori \<in> set (orientations (base (tiles ! tix)) (allowRot (tiles ! tix)) (allowReflect (tiles ! tix)))"
    and "placeOrientation W H B tix ori st = Some st'"
  shows "pstOK B tiles st'"
proof -
  have ne: "ori \<noteq> []" using assms(4) by (auto simp: placeOrientation_def split: if_splits)
  let ?inner = "\<lambda>st1 oy. foldl (\<lambda>st2 ox. tryOffset B tix ori oy ox st2) st1
                    [0..W - 1 - Max (set (map fst ori))]"
  have inner: "\<And>s oy. pstOK B tiles s \<Longrightarrow> pstOK B tiles (?inner s oy)"
  proof -
    fix s oy assume s: "pstOK B tiles s"
    show "pstOK B tiles (?inner s oy)"
    proof (rule foldl_invariant [where P = "pstOK B tiles"])
      show "pstOK B tiles s" by (rule s)
    next
      fix s2 x assume "pstOK B tiles s2"
      then show "pstOK B tiles (tryOffset B tix ori oy x s2)" by (rule tryOffset_ok [OF _ assms(2,3)])
    qed
  qed
  have "pstOK B tiles (foldl ?inner st [0..H - 1 - Max (set (map snd ori))])"
  proof (rule foldl_invariant [where P = "pstOK B tiles"])
    show "pstOK B tiles st" by (rule assms(1))
  next
    fix s x assume "pstOK B tiles s"
    then show "pstOK B tiles (?inner s x)" by (rule inner)
  qed
  then show ?thesis using assms(4) ne by (simp add: placeOrientation_def Let_def)
qed

lemma placeOrientations_ok:
  assumes "tix < length tiles"
    and "set os \<subseteq> set (orientations (base (tiles ! tix)) (allowRot (tiles ! tix)) (allowReflect (tiles ! tix)))"
  shows "pstOK B tiles st \<Longrightarrow> placeOrientations W H B tix os st = Some st' \<Longrightarrow> pstOK B tiles st'"
  using assms(2)
proof (induction os arbitrary: st)
  case Nil
  then show ?case by simp
next
  case (Cons ori os)
  from Cons.prems(2) obtain st1 where 1: "placeOrientation W H B tix ori st = Some st1"
    and 2: "placeOrientations W H B tix os st1 = Some st'"
    by (auto split: option.splits)
  have "pstOK B tiles st1"
    using placeOrientation_ok [OF Cons.prems(1) assms(1) _ 1] Cons.prems(3) by simp
  then show ?case using Cons.IH [OF _ 2] Cons.prems(3) by simp
qed

lemma placeTiles_ok:
  "pstOK B tiles st \<Longrightarrow> ts = drop tix tiles \<Longrightarrow> placeTiles W H B tix ts st = Some st'
   \<Longrightarrow> pstOK B tiles st'"
proof (induction ts arbitrary: tix st)
  case Nil
  then show ?case by simp
next
  case (Cons t ts)
  have lt: "tix < length tiles" using Cons.prems(2) by (metis drop_all list.distinct(1) not_le)
  have t: "t = tiles ! tix" using Cons.prems(2) lt by (metis Cons_nth_drop_Suc list.inject)
  have ts: "ts = drop (Suc tix) tiles" using Cons.prems(2) lt by (metis Cons_nth_drop_Suc list.inject)
  from Cons.prems(3) obtain st1 where
    1: "placeOrientations W H B tix (orientations (base t) (allowRot t) (allowReflect t)) st = Some st1"
    and 2: "placeTiles W H B (Suc tix) ts st1 = Some st'"
    by (auto split: option.splits)
  have "pstOK B tiles st1"
    using placeOrientations_ok [OF lt subset_refl Cons.prems(1) 1 [unfolded t]] .
  then show ?case using Cons.IH [OF _ ts 2] by simp
qed

lemma precomputePlacements_ok:
  assumes "precomputePlacements W H B tiles = Some (ps, bc)"
  shows "(\<forall>p \<in> set ps. placementFrom B tiles p) \<and> bcOK ps bc"
proof -
  have "pstOK B tiles ([], Map.empty)" by (simp add: pstOK_def bcOK_def)
  from placeTiles_ok [OF this _ assms [unfolded precomputePlacements_def]]
  show ?thesis by (simp add: pstOK_def)
qed

text \<open>With no empty base shape the placement loops end.\<close>

lemma placeOrientations_returns:
  "\<forall>ori \<in> set os. ori \<noteq> [] \<Longrightarrow> \<exists>st'. placeOrientations W H B tix os st = Some st'"
  by (induction os arbitrary: st) (auto simp: placeOrientation_def Let_def)

lemma placeTiles_returns:
  "\<forall>t \<in> set ts. base t \<noteq> [] \<Longrightarrow> \<exists>st'. placeTiles W H B tix ts st = Some st'"
proof (induction ts arbitrary: tix st)
  case Nil
  then show ?case by simp
next
  case (Cons t ts)
  have "\<forall>ori \<in> set (orientations (base t) (allowRot t) (allowReflect t)). ori \<noteq> []"
  proof
    fix ori assume "ori \<in> set (orientations (base t) (allowRot t) (allowReflect t))"
    from orientations_shapeLike [OF this] have "length ori = length (base t)"
      by (simp add: shapeLike_def)
    then show "ori \<noteq> []" using Cons.prems by auto
  qed
  from placeOrientations_returns [OF this] obtain st1 where
    "placeOrientations W H B tix (orientations (base t) (allowRot t) (allowReflect t)) st = Some st1"
    by blast
  then show ?case using Cons.IH [of "Suc tix" st1] Cons.prems by simp
qed

lemma precomputePlacements_returns:
  "nonemptyBases tiles \<Longrightarrow> \<exists>ps bc. precomputePlacements W H B tiles = Some (ps, bc)"
  using placeTiles_returns [of tiles W H B 0 "([], Map.empty)"]
  by (auto simp: nonemptyBases_def list_all_iff precomputePlacements_def)

lemma placementFrom_distinct:
  assumes "placementFrom B tiles p" and "distinctBases tiles"
  shows "distinct (cells p)"
proof -
  from assms(1) obtain ori ox oy where lt: "ti p < length tiles"
    and ori: "ori \<in> set (orientations (base (tiles ! ti p)) (allowRot (tiles ! ti p)) (allowReflect (tiles ! ti p)))"
    and c: "cells p = map (\<lambda>(x, y). (x + ox, y + oy)) ori"
    by (auto simp: placementFrom_def)
  have "distinct (base (tiles ! ti p))"
    using assms(2) lt by (simp add: distinctBases_def list_all_iff)
  then have "distinct ori" using orientations_shapeLike [OF ori] by (simp add: shapeLike_def)
  moreover have "inj (\<lambda>(x::int, y::int). (x + ox, y + oy))" by (auto simp: inj_def)
  ultimately show ?thesis
    unfolding c by (simp add: distinct_map inj_on_subset [OF _ subset_UNIV])
qed

lemma placementFrom_nonempty:
  assumes "placementFrom B tiles p" and "nonemptyBases tiles"
  shows "cells p \<noteq> []"
proof -
  from assms(1) obtain ori ox oy where lt: "ti p < length tiles"
    and ori: "ori \<in> set (orientations (base (tiles ! ti p)) (allowRot (tiles ! ti p)) (allowReflect (tiles ! ti p)))"
    and c: "cells p = map (\<lambda>(x, y). (x + ox, y + oy)) ori"
    by (auto simp: placementFrom_def)
  have "base (tiles ! ti p) \<noteq> []"
    using assms(2) lt by (simp add: nonemptyBases_def list_all_iff)
  then have "ori \<noteq> []" using orientations_shapeLike [OF ori] by (auto simp: shapeLike_def)
  then show ?thesis unfolding c by simp
qed

section \<open>Invariants of the enumeration\<close>

lemma sameCore_refl: "sameCore a a" by (simp add: sameCore_def)
lemma sameCore_sym: "sameCore a b \<Longrightarrow> sameCore b a" by (simp add: sameCore_def)
lemma sameCore_trans: "sameCore a b \<Longrightarrow> sameCore b c \<Longrightarrow> sameCore a c" by (simp add: sameCore_def)

lemma sameCore_tick: "sameCore (tick e st) st"
  by (simp add: sameCore_def tick_def Let_def)

lemma sameCore_record: "sameCore (record_solution e st) st"
  by (simp add: sameCore_def record_solution_def Let_def)

lemma sameCore_rpos: "sameCore (st\<lparr>rpos := x\<rparr>) st"
  by (simp add: sameCore_def)

lemma sameCore_place: "sameCore a b \<Longrightarrow> sameCore (place e i a) (place e i b)"
  by (simp add: sameCore_def place_def Let_def)

lemma sameCore_unplace: "sameCore a b \<Longrightarrow> sameCore (unplace e i a) (unplace e i b)"
  by (simp add: sameCore_def unplace_def Let_def)

lemma sameCore_unwind: "sameCore a b \<Longrightarrow> sameCore (unwind e tr a) (unwind e tr b)"
  by (induction tr arbitrary: a b) (simp_all add: sameCore_unplace)

lemma sameCore_stOK: "sameCore a b \<Longrightarrow> stOK e a = stOK e b"
  by (simp add: sameCore_def stOK_def)

lemma sameCore_placeable: "sameCore a b \<Longrightarrow> placeable e a i = placeable e b i"
  by (simp add: sameCore_def placeable_def)

lemma solutions_unplace: "solutions (unplace e i st) = solutions st"
  by (simp add: unplace_def Let_def)

lemma solutions_unwind: "solutions (unwind e tr st) = solutions st"
  by (induction tr arbitrary: st) (simp_all add: solutions_unplace)

lemma solutions_place: "solutions (place e i st) = solutions st"
  by (simp add: place_def Let_def)

lemma solutions_tick: "solutions (tick e st) = solutions st"
  by (simp add: tick_def Let_def)

lemma inc_dec_update: "(xs::int list)[t := xs[t := xs ! t + 1] ! t - 1] = xs"
  by (cases "t < length xs") (simp_all add: list_update_beyond)

lemma unplace_place:
  "set (cells (e_placements e ! i)) \<inter> covered st = {} \<Longrightarrow> sameCore (unplace e i (place e i st)) st"
  by (auto simp: sameCore_def unplace_def place_def Let_def inc_dec_update)

lemma envOK_placement:
  assumes "envOK e" and "i < length (e_placements e)"
  shows "distinct (cells (e_placements e ! i))"
    and "set (cells (e_placements e ! i)) \<subseteq> set (e_allCells e)"
    and "ti (e_placements e ! i) < length (e_tiles e)"
proof -
  have "e_placements e ! i \<in> set (e_placements e)" using assms(2) by (rule nth_mem)
  then have pf: "placementFrom (e_boardSet e) (e_tiles e) (e_placements e ! i)"
    using assms(1) unfolding envOK_def by blast
  show "distinct (cells (e_placements e ! i))"
    using placementFrom_distinct [OF pf] assms(1) by (simp add: envOK_def)
  show "set (cells (e_placements e ! i)) \<subseteq> set (e_allCells e)"
    using pf assms(1) by (simp add: placementFrom_def envOK_def)
  show "ti (e_placements e ! i) < length (e_tiles e)"
    using pf by (simp add: placementFrom_def)
qed

lemma cellsOf_append: "cellsOf e (xs @ [i]) = cellsOf e xs @ cells (e_placements e ! i)"
  by (simp add: cellsOf_def)

lemma typeUses_append:
  "typeUses e (xs @ [i]) t = typeUses e xs t + (if ti (e_placements e ! i) = t then 1 else 0)"
  by (simp add: typeUses_def)

lemma place_stOK:
  assumes e: "envOK e" and st: "stOK e st" and pl: "placeable e st i"
  shows "stOK e (place e i st)"
proof -
  let ?p = "e_placements e ! i"
  have i: "i < length (e_placements e)" using pl by (simp add: placeable_def)
  have disj: "set (cells ?p) \<inter> covered st = {}" using pl by (simp add: placeable_def)
  have stock: "stockLeft (e_tiles e) (usedCounts st) (ti ?p)" using pl by (simp add: placeable_def)
  note pf = envOK_placement [OF e i]
  have cov: "covered st = set (cellsOf e (usedPlacements st))" using st by (simp add: stOK_def)
  have len: "length (usedCounts st) = length (e_tiles e)" using st by (simp add: stOK_def)
  have 1: "\<forall>j \<in> set (usedPlacements (place e i st)). j < length (e_placements e)"
    using st i by (auto simp: stOK_def place_def Let_def)
  have 2: "distinct (cellsOf e (usedPlacements (place e i st)))"
    using st pf(1) disj cov by (auto simp: stOK_def place_def Let_def cellsOf_append)
  have 3: "covered (place e i st) = set (cellsOf e (usedPlacements (place e i st)))"
    using cov by (auto simp: place_def Let_def cellsOf_append)
  have 4: "coveredCount (place e i st) = int (length (cellsOf e (usedPlacements (place e i st))))"
    using st by (simp add: stOK_def place_def Let_def cellsOf_append)
  have 5: "length (usedCounts (place e i st)) = length (e_tiles e)"
    using len by (simp add: place_def Let_def)
  have 6: "\<forall>t < length (e_tiles e). usedCounts (place e i st) ! t
              = int (typeUses e (usedPlacements (place e i st)) t)"
    using st len by (auto simp: stOK_def place_def Let_def typeUses_append nth_list_update)
  have 7: "nonnegCounts (e_tiles e) \<longrightarrow>
           (\<forall>t < length (e_tiles e). \<forall>lim. count (e_tiles e ! t) = Some lim
               \<longrightarrow> usedCounts (place e i st) ! t \<le> lim)"
  proof (intro impI allI)
    fix t lim
    assume nn: "nonnegCounts (e_tiles e)" and t: "t < length (e_tiles e)"
      and lim: "count (e_tiles e ! t) = Some lim"
    have old: "usedCounts st ! t \<le> lim" using st nn t lim unfolding stOK_def by blast
    show "usedCounts (place e i st) ! t \<le> lim"
    proof (cases "t = ti ?p")
      case True
      then have "\<not> lim \<le> usedCounts st ! t" using stock lim by (simp add: stockLeft_def)
      then show ?thesis using True t len by (simp add: place_def Let_def)
    next
      case False
      then show ?thesis using old by (simp add: place_def Let_def)
    qed
  qed
  from 1 2 3 4 5 6 7 show ?thesis unfolding stOK_def by blast
qed

lemma validPids_placeable:
  assumes "envOK e" and "i \<in> set (validPidsForCell e st k)"
  shows "placeable e st i"
proof -
  from assms(2) obtain l where l: "e_byCell e k = Some l" and il: "i \<in> set l"
    by (cases "e_byCell e k") (auto simp: validPidsForCell_def)
  have "i < length (e_placements e)"
    using assms(1) l il unfolding envOK_def bcOK_def by blast
  moreover have "set (cells (e_placements e ! i)) \<inter> covered st = {}"
    using assms(2) by (auto simp: validPidsForCell_def list_all_iff)
  moreover have "stockLeft (e_tiles e) (usedCounts st) (ti (e_placements e ! i))"
    using assms(2) by (simp add: validPidsForCell_def)
  ultimately show ?thesis by (simp add: placeable_def)
qed

lemma chooseLoop_placeable:
  assumes "envOK e"
  shows "chooseLoop e st ks bc bp bl = (cellK, pids)
         \<Longrightarrow> (\<forall>ps. bp = Some ps \<longrightarrow> (\<forall>i \<in> set ps. placeable e st i))
         \<Longrightarrow> \<forall>i \<in> set pids. placeable e st i"
proof (induction ks arbitrary: bc bp bl)
  case Nil
  then show ?case by (auto split: option.splits)
next
  case (Cons k ks)
  show ?case
  proof (cases "k \<in> covered st")
    case True
    then show ?thesis using Cons by simp
  next
    case False
    let ?cands = "validPidsForCell e st k"
    have cands: "\<forall>i \<in> set ?cands. placeable e st i"
      using validPids_placeable [OF assms] by blast
    consider (zero) "?cands = []"
      | (one) "?cands \<noteq> []" "int (length ?cands) < bl" "length ?cands = 1"
      | (better) "?cands \<noteq> []" "int (length ?cands) < bl" "length ?cands \<noteq> 1"
      | (worse) "?cands \<noteq> []" "\<not> int (length ?cands) < bl"
      by blast
    then show ?thesis
    proof cases
      case zero
      then show ?thesis using Cons.prems(1) False by (simp add: Let_def)
    next
      case one
      then show ?thesis using Cons.prems(1) False cands by (auto simp: Let_def)
    next
      case better
      then have "chooseLoop e st ks (Some k) (Some ?cands) (int (length ?cands)) = (cellK, pids)"
        using Cons.prems(1) False by (simp add: Let_def)
      from Cons.IH [OF this] cands show ?thesis by simp
    next
      case worse
      then have "chooseLoop e st ks bc bp bl = (cellK, pids)"
        using Cons.prems(1) False by (simp add: Let_def)
      from Cons.IH [OF this Cons.prems(2)] show ?thesis .
    qed
  qed
qed

lemma chooseCellAndPids_placeable:
  "envOK e \<Longrightarrow> chooseCellAndPids e st = (cellK, pids) \<Longrightarrow> \<forall>i \<in> set pids. placeable e st i"
  using chooseLoop_placeable [of e st "e_allCells e" None None 1000000000 cellK pids]
  by (simp add: chooseCellAndPids_def)

lemma shuffleLoop_set:
  "i < length xs \<or> i = 0 \<Longrightarrow> set (fst (shuffleLoop rnd i xs pos)) \<subseteq> set xs"
proof (induction i arbitrary: xs pos)
  case 0
  then show ?case by simp
next
  case (Suc i)
  let ?j = "rnd pos mod (Suc i + 1)"
  let ?xs = "xs[Suc i := xs ! ?j, ?j := xs ! Suc i]"
  have si: "Suc i < length xs" using Suc.prems by simp
  have "?j < Suc i + 1" by simp
  then have j: "?j < length xs" using si by linarith
  have "set (xs[Suc i := xs ! ?j]) \<subseteq> insert (xs ! ?j) (set xs)"
    by (rule set_update_subset_insert)
  then have A: "set (xs[Suc i := xs ! ?j]) \<subseteq> set xs"
    using nth_mem [OF j] by blast
  have "set ?xs \<subseteq> insert (xs ! Suc i) (set (xs[Suc i := xs ! ?j]))"
    by (rule set_update_subset_insert)
  then have sub: "set ?xs \<subseteq> set xs"
    using A nth_mem [OF si] by blast
  have "set (fst (shuffleLoop rnd i ?xs (pos + 1))) \<subseteq> set ?xs"
    using Suc.IH [of ?xs "pos + 1"] si by simp
  then show ?case using sub by (simp add: Let_def)
qed

lemma shuffle_set: "shuffle rnd xs pos = (ys, pos') \<Longrightarrow> set ys \<subseteq> set xs"
  using shuffleLoop_set [of "length xs - 1" xs rnd pos]
  by (cases xs) (auto simp: shuffle_def)

lemma coverCount_one:
  "distinct (concat (map cells L)) \<Longrightarrow> c \<in> set (concat (map cells L)) \<Longrightarrow> coverCount L c = 1"
proof (induction L)
  case Nil
  then show ?case by simp
next
  case (Cons p L)
  show ?case
  proof (cases "c \<in> set (cells p)")
    case True
    then have "\<forall>q \<in> set L. c \<notin> set (cells q)" using Cons.prems(1) by auto
    then have "filter (\<lambda>q. c \<in> set (cells q)) L = []" by (simp add: filter_empty_conv)
    then show ?thesis using True by (simp add: coverCount_def)
  next
    case False
    then have "c \<in> set (concat (map cells L))" using Cons.prems(2) by simp
    moreover have "distinct (concat (map cells L))" using Cons.prems(1) by simp
    ultimately have "coverCount L c = 1" by (rule Cons.IH [rotated])
    then show ?thesis using False by (simp add: coverCount_def)
  qed
qed

lemma layoutOf_cells: "concat (map cells (layoutOf e pids)) = cellsOf e pids"
  by (simp add: layoutOf_def cellsOf_def comp_def)

lemma layoutOf_typeCount: "typeCount (layoutOf e pids) t = typeUses e pids t"
  by (simp add: layoutOf_def typeCount_def typeUses_def filter_map comp_def)

lemma cellsOf_subset:
  assumes "envOK e" and "\<forall>i \<in> set pids. i < length (e_placements e)"
  shows "set (cellsOf e pids) \<subseteq> set (e_allCells e)"
  using assms(2) envOK_placement(2) [OF assms(1)] by (auto simp: cellsOf_def)

lemma complete_exactCover:
  assumes e: "envOK e" and st: "stOK e st" and full: "coveredCount st = int (e_totalCells e)"
  shows "exactCover (e_allCells e) (layoutOf e (usedPlacements st))"
proof -
  let ?cs = "cellsOf e (usedPlacements st)"
  have valid: "\<forall>i \<in> set (usedPlacements st). i < length (e_placements e)"
    using st by (simp add: stOK_def)
  have d: "distinct ?cs" using st by (simp add: stOK_def)
  have sub: "set ?cs \<subseteq> set (e_allCells e)" by (rule cellsOf_subset [OF e valid])
  have "length ?cs = length (e_allCells e)"
    using st full e by (simp add: stOK_def envOK_def)
  then have "card (set ?cs) = card (set (e_allCells e))"
    using d e by (simp add: distinct_card envOK_def)
  then have eq: "set ?cs = set (e_allCells e)"
    using sub by (simp add: card_subset_eq)
  have 1: "list_all (\<lambda>c. coverCount (layoutOf e (usedPlacements st)) c = 1) (e_allCells e)"
    unfolding list_all_iff
  proof
    fix c assume "c \<in> set (e_allCells e)"
    then have "c \<in> set (concat (map cells (layoutOf e (usedPlacements st))))"
      using eq by (simp add: layoutOf_cells)
    then show "coverCount (layoutOf e (usedPlacements st)) c = 1"
      using d by (intro coverCount_one) (simp_all add: layoutOf_cells)
  qed
  have 2: "list_all (\<lambda>p. list_all (\<lambda>c. c \<in> set (e_allCells e)) (cells p)) (layoutOf e (usedPlacements st))"
    using valid envOK_placement(2) [OF e] by (auto simp: list_all_iff layoutOf_def)
  from 1 2 show ?thesis by (simp add: exactCover_def)
qed

lemma stOK_withinStock:
  assumes st: "stOK e st" and nn: "nonnegCounts (e_tiles e)"
  shows "withinStock (e_tiles e) (layoutOf e (usedPlacements st))"
  unfolding withinStock_def list_all_iff
proof
  fix t assume "t \<in> set [0..<length (e_tiles e)]"
  then have t: "t < length (e_tiles e)" by simp
  have u: "usedCounts st ! t = int (typeUses e (usedPlacements st) t)"
    using st t unfolding stOK_def by blast
  show "case count (e_tiles e ! t) of None \<Rightarrow> True
        | Some lim \<Rightarrow> int (typeCount (layoutOf e (usedPlacements st)) t) \<le> lim"
  proof (cases "count (e_tiles e ! t)")
    case None
    then show ?thesis by simp
  next
    case (Some lim)
    have "usedCounts st ! t \<le> lim" using st nn t Some unfolding stOK_def by blast
    then show ?thesis using Some u by (simp add: layoutOf_typeCount)
  qed
qed

lemma record_solution_solutions:
  "set (solutions (record_solution e st)) \<subseteq> insert (layoutOf e (usedPlacements st)) (set (solutions st))"
  by (auto simp: record_solution_def Let_def layoutOf_def)

lemma record_solution_solsOK:
  assumes "envOK e" and "stOK e st" and "solsOK e st" and "coveredCount st = int (e_totalCells e)"
  shows "solsOK e (record_solution e st)"
  unfolding solsOK_def
proof
  fix L assume "L \<in> set (solutions (record_solution e st))"
  then consider "L = layoutOf e (usedPlacements st)" | "L \<in> set (solutions st)"
    using record_solution_solutions [of e st] by blast
  then show "exactCover (e_allCells e) L \<and> (nonnegCounts (e_tiles e) \<longrightarrow> withinStock (e_tiles e) L)"
  proof cases
    case 1
    then show ?thesis
      using complete_exactCover [OF assms(1,2,4)] stOK_withinStock [OF assms(2)] by simp
  next
    case 2
    then show ?thesis using assms(3) by (simp add: solsOK_def)
  qed
qed

lemma solsOK_cong: "solutions a = solutions b \<Longrightarrow> solsOK e a = solsOK e b"
  by (simp add: solsOK_def)

lemma capReached_cong: "solutions a = solutions b \<Longrightarrow> capReached e a = capReached e b"
  by (simp add: capReached_def)

lemma post_unwind:
  assumes "solsOK e st" and "sameCore st st0"
  shows "post e (unwind e tr st) (unwind e tr st0)"
  using assms solsOK_cong [OF solutions_unwind, of e e tr st] sameCore_unwind [of st st0 e tr]
  by (simp add: post_def)

lemma post_trans: "post e st' a \<Longrightarrow> sameCore a b \<Longrightarrow> post e st' b"
  unfolding post_def using sameCore_trans by blast

lemma stOK_tick_place:
  assumes "envOK e" and "stOK e st" and "placeable e st i"
  shows "stOK e (tick e (place e i st))"
  using place_stOK [OF assms] sameCore_stOK [OF sameCore_tick] by simp

lemma solsOK_tick_place: "solsOK e (tick e (place e i st)) = solsOK e st"
  by (rule solsOK_cong) (simp add: solutions_tick solutions_place)

lemma undo_tick_place:
  assumes "placeable e st i" and "sameCore st1 (tick e (place e i st))"
  shows "sameCore (unplace e i st1) st"
proof -
  have "sameCore (unplace e i st1) (unplace e i (place e i st))"
    by (rule sameCore_unplace) (rule sameCore_trans [OF assms(2) sameCore_tick])
  moreover have "sameCore (unplace e i (place e i st)) st"
    using assms(1) by (intro unplace_place) (simp add: placeable_def)
  ultimately show ?thesis by (rule sameCore_trans)
qed

lemma rec_step:
  assumes "loopPost e n"
  shows "recPost e (Suc n)"
  unfolding recPost_def
proof (intro allI impI)
  fix st st'
  assume st: "stOK e st" and sols: "solsOK e st" and r: "rec e (Suc n) st = Some st'"
  show "post e st' st"
  proof (cases "int (length (solutions st)) \<ge> e_cap e")
    case True
    then have "st' = st" using r by simp
    then show ?thesis using sols by (simp add: post_def sameCore_refl)
  next
    case False
    then have "loop e n [] st = Some st'" using r by simp
    then have "post e st' (unwind e [] st)" using assms st sols unfolding loopPost_def by blast
    then show ?thesis by simp
  qed
qed

lemma loop_step:
  assumes e: "envOK e" and L: "loopPost e n" and B: "branchPost e n"
  shows "loopPost e (Suc n)"
  unfolding loopPost_def
proof (intro allI impI)
  fix tr st st'
  assume st: "stOK e st" and sols: "solsOK e st" and r: "loop e (Suc n) tr st = Some st'"
  show "post e st' (unwind e tr st)"
  proof (cases "coveredCount st = int (e_totalCells e)")
    case True
    then have st': "st' = unwind e tr (record_solution e st)" using r by simp
    show ?thesis unfolding st'
      by (rule post_unwind [OF record_solution_solsOK [OF e st sols True] sameCore_record])
  next
    case False
    obtain cellK pids where ch: "chooseCellAndPids e st = (cellK, pids)"
      by (cases "chooseCellAndPids e st")
    have pl: "\<forall>i \<in> set pids. placeable e st i"
      by (rule chooseCellAndPids_placeable [OF e ch])
    consider (dead) "length pids = 0" | (forced) "length pids = 1"
      | (many) "length pids \<noteq> 0" "length pids \<noteq> 1" by blast
    then show ?thesis
    proof cases
      case dead
      then have "st' = unwind e tr st" using r False ch by simp
      then show ?thesis using post_unwind [OF sols sameCore_refl] by simp
    next
      case forced
      let ?i = "pids ! 0"
      have i: "placeable e st ?i" using pl forced by (cases pids) auto
      have "loop e n (?i # tr) (tick e (place e ?i st)) = Some st'"
        using forced False ch r by (cases pids) auto
      then have "post e st' (unwind e (?i # tr) (tick e (place e ?i st)))"
        using L stOK_tick_place [OF e st i] sols solsOK_tick_place [of e ?i st]
        unfolding loopPost_def by blast
      then have "post e st' (unwind e tr (unplace e ?i (tick e (place e ?i st))))" by simp
      moreover have "sameCore (unwind e tr (unplace e ?i (tick e (place e ?i st)))) (unwind e tr st)"
        by (rule sameCore_unwind) (rule undo_tick_place [OF i sameCore_refl])
      ultimately show ?thesis by (rule post_trans)
    next
      case many
      obtain pids' pos' where sh: "shuffle (e_rnd e) pids (rpos st) = (pids', pos')"
        by (cases "shuffle (e_rnd e) pids (rpos st)")
      have b: "branch e n tr pids' (st\<lparr>rpos := pos'\<rparr>) = Some st'"
        using r False ch many sh by simp
      have 1: "stOK e (st\<lparr>rpos := pos'\<rparr>)" using st sameCore_stOK [OF sameCore_rpos] by simp
      have 2: "solsOK e (st\<lparr>rpos := pos'\<rparr>)" using sols by (simp add: solsOK_def)
      have 3: "\<forall>i \<in> set pids'. placeable e (st\<lparr>rpos := pos'\<rparr>) i"
        using pl shuffle_set [OF sh] sameCore_placeable [OF sameCore_rpos] by blast
      have "post e st' (unwind e tr (st\<lparr>rpos := pos'\<rparr>))"
        using B 1 2 3 b unfolding branchPost_def by blast
      moreover have "sameCore (unwind e tr (st\<lparr>rpos := pos'\<rparr>)) (unwind e tr st)"
        by (rule sameCore_unwind) (rule sameCore_rpos)
      ultimately show ?thesis by (rule post_trans)
    qed
  qed
qed

lemma branch_nil:
  assumes "solsOK e st" and "branch e n tr [] st = Some st'"
  shows "post e st' (unwind e tr st)"
proof -
  have "st' = unwind e tr st" using assms(2) by simp
  then show ?thesis using post_unwind [OF assms(1) sameCore_refl] by simp
qed

lemma branch_zero: "branchPost e 0"
  unfolding branchPost_def
proof (intro allI impI)
  fix tr pids st st'
  assume "solsOK e st" "branch e 0 tr pids st = Some st'"
  then show "post e st' (unwind e tr st)"
    using branch_nil [of e st 0 tr st'] by (cases pids) auto
qed

lemma branch_step:
  assumes e: "envOK e" and R: "recPost e n"
  shows "branchPost e (Suc n)"
proof -
  have "stOK e st \<Longrightarrow> solsOK e st \<Longrightarrow> \<forall>i \<in> set pids. placeable e st i
        \<Longrightarrow> branch e (Suc n) tr pids st = Some st' \<Longrightarrow> post e st' (unwind e tr st)"
    for tr pids st st'
  proof (induction pids arbitrary: st)
    case Nil
    then show ?case using branch_nil by blast
  next
    case (Cons i pids)
    have i: "placeable e st i" using Cons.prems(3) by simp
    from Cons.prems(4) obtain st1 where r: "rec e n (tick e (place e i st)) = Some st1"
      by (auto split: option.splits)
    have p1: "post e st1 (tick e (place e i st))"
      using R stOK_tick_place [OF e Cons.prems(1) i] Cons.prems(2) solsOK_tick_place [of e i st] r
      unfolding recPost_def by blast
    show ?case
    proof (cases "int (length (solutions st1)) \<ge> e_cap e")
      case True
      then have st': "st' = unwind e tr st1" using Cons.prems(4) r by simp
      have "solsOK e st'" unfolding st'
        using p1 solsOK_cong [OF solutions_unwind, of e e tr st1] by (simp add: post_def)
      moreover have "capReached e st'" unfolding st'
        using True capReached_cong [OF solutions_unwind, of e e tr st1] by (simp add: capReached_def)
      ultimately show ?thesis by (simp add: post_def)
    next
      case False
      then have sc: "sameCore st1 (tick e (place e i st))"
        using p1 by (simp add: post_def capReached_def)
      let ?st2 = "unplace e i st1"
      have bk: "sameCore ?st2 st" by (rule undo_tick_place [OF i sc])
      have b: "branch e (Suc n) tr pids ?st2 = Some st'"
        using Cons.prems(4) r False by simp
      have 1: "stOK e ?st2" using Cons.prems(1) sameCore_stOK [OF bk] by simp
      have 2: "solsOK e ?st2"
        using p1 solsOK_cong [OF solutions_unplace, of e e i st1] by (simp add: post_def)
      have 3: "\<forall>j \<in> set pids. placeable e ?st2 j"
        using Cons.prems(3) sameCore_placeable [OF bk] by simp
      have "post e st' (unwind e tr ?st2)" by (rule Cons.IH [OF 1 2 3 b])
      then show ?thesis using sameCore_unwind [OF bk] by (rule post_trans)
    qed
  qed
  then show ?thesis unfolding branchPost_def by blast
qed

lemma search_post: "envOK e \<Longrightarrow> recPost e n \<and> loopPost e n \<and> branchPost e n"
proof (induction n)
  case 0
  show ?case by (simp add: recPost_def loopPost_def branch_zero)
next
  case (Suc n)
  then show ?case using rec_step loop_step branch_step by blast
qed

lemma row_cells:
  "set (concat (map (\<lambda>x. if (x, y) \<in> holes then [] else [(x, y)]) xs)) \<subseteq> {(x, y) | x. x \<in> set xs}"
  by (induction xs) auto

lemma row_distinct:
  "distinct xs \<Longrightarrow> distinct (concat (map (\<lambda>x. if (x, y) \<in> holes then [] else [(x, y)]) xs))"
proof (induction xs)
  case Nil
  then show ?case by simp
next
  case (Cons x xs)
  have "(x, y) \<notin> set (concat (map (\<lambda>x. if (x, y) \<in> holes then [] else [(x, y)]) xs))"
    using row_cells [of y holes xs] Cons.prems by auto
  then show ?case using Cons by simp
qed

lemma rows_distinct:
  "distinct xs \<Longrightarrow> distinct ys \<Longrightarrow>
   distinct (concat (map (\<lambda>y. concat (map (\<lambda>x. if (x, y) \<in> holes then [] else [(x, y)]) xs)) ys))"
proof (induction ys)
  case Nil
  then show ?case by simp
next
  case (Cons y ys)
  let ?row = "\<lambda>y. concat (map (\<lambda>x. if (x, y) \<in> holes then [] else [(x, y)]) xs)"
  have "set (?row y) \<inter> set (concat (map ?row ys)) = {}"
  proof (rule ccontr)
    assume "set (?row y) \<inter> set (concat (map ?row ys)) \<noteq> {}"
    then obtain c where c1: "c \<in> set (?row y)" and c2: "c \<in> set (concat (map ?row ys))" by blast
    from c2 obtain y' where y': "y' \<in> set ys" and c3: "c \<in> set (?row y')" by auto
    have "snd c = y" using c1 row_cells [of y holes xs] by auto
    moreover have "snd c = y'" using c3 row_cells [of y' holes xs] by auto
    ultimately show False using y' Cons.prems(2) by simp
  qed
  then show ?case using Cons row_distinct [of xs y holes] by simp
qed

lemma boardCells_distinct: "distinct (boardCells W H holes)"
  unfolding boardCells_def by (rule rows_distinct) simp_all

lemma enumerateTilings_unfold:
  "enumerateTilings fuel rnd pos0 W H holes tiles u cap cb =
     (case precomputePlacements W H (set (boardCells W H holes)) tiles of
        None \<Rightarrow> None
      | Some (ps, bc) \<Rightarrow>
          if areaThrows W H holes tiles
          then Some (Inl (Error ''Not enough stone area to cover the patio.''))
          else (case rec (envOf rnd W H holes tiles u cap cb ps bc) fuel (st0Of tiles pos0) of
                  None \<Rightarrow> None
                | Some st \<Rightarrow> Some (Inr \<lparr>en_solutions = solutions st,
                                         en_boardSet = set (boardCells W H holes),
                                         en_posted = posted st, en_rpos = rpos st\<rparr>)))"
  unfolding enumerateTilings_def Let_def envOf_def st0Of_def areaThrows_def by (rule refl)

lemma envOf_ok:
  assumes "precomputePlacements W H (set (boardCells W H holes)) tiles = Some (ps, bc)"
    and "distinctBases tiles"
  shows "envOK (envOf rnd W H holes tiles u cap cb ps bc)"
  using precomputePlacements_ok [OF assms(1)] assms(2) boardCells_distinct [of W H holes]
  by (simp add: envOK_def envOf_def)

lemma st0_ok: "stOK (envOf rnd W H holes tiles u cap cb ps bc) (st0Of tiles pos0)"
proof -
  have "nonnegCounts tiles \<Longrightarrow> t < length tiles \<Longrightarrow> count (tiles ! t) = Some lim \<Longrightarrow> 0 \<le> lim" for t lim
    by (auto simp: nonnegCounts_def list_all_length split: option.splits)
  then show ?thesis
    by (auto simp: stOK_def envOf_def st0Of_def cellsOf_def typeUses_def)
qed

lemma st0_sols: "solsOK e (st0Of tiles pos0)"
  by (simp add: solsOK_def st0Of_def)

lemma enumerate_solsOK:
  assumes "distinctBases tiles"
    and "enumerateTilings fuel rnd pos0 W H holes tiles u cap cb = Some (Inr r)"
  shows "\<forall>L \<in> set (en_solutions r). exactCover (boardCells W H holes) L
                                   \<and> (nonnegCounts tiles \<longrightarrow> withinStock tiles L)"
proof -
  from assms(2) obtain ps bc st where
    pre: "precomputePlacements W H (set (boardCells W H holes)) tiles = Some (ps, bc)"
    and run: "rec (envOf rnd W H holes tiles u cap cb ps bc) fuel (st0Of tiles pos0) = Some st"
    and r: "en_solutions r = solutions st"
    unfolding enumerateTilings_unfold by (auto split: option.splits if_splits)
  let ?e = "envOf rnd W H holes tiles u cap cb ps bc"
  have "recPost ?e fuel" using search_post [OF envOf_ok [OF pre assms(1)]] by blast
  then have "post ?e st (st0Of tiles pos0)"
    using st0_ok st0_sols run unfolding recPost_def by blast
  then have "solsOK ?e st" by (simp add: post_def)
  then show ?thesis unfolding solsOK_def r by (simp add: envOf_def)
qed

section \<open>The enumeration returns\<close>

lemma covered_bound:
  assumes "envOK e" and "stOK e st"
  shows "length (cellsOf e (usedPlacements st)) \<le> e_totalCells e"
proof -
  have valid: "\<forall>i \<in> set (usedPlacements st). i < length (e_placements e)"
    using assms(2) by (simp add: stOK_def)
  have d: "distinct (cellsOf e (usedPlacements st))" using assms(2) by (simp add: stOK_def)
  have "card (set (cellsOf e (usedPlacements st))) \<le> card (set (e_allCells e))"
    by (rule card_mono) (simp_all add: cellsOf_subset [OF assms(1) valid])
  then show ?thesis using d assms(1) by (simp add: distinct_card envOK_def)
qed

lemma sameCore_remaining: "sameCore a b \<Longrightarrow> remaining e a = remaining e b"
  by (simp add: sameCore_def remaining_def)

lemma place_remaining:
  assumes e: "envOK e" and ne: "nonemptyBases (e_tiles e)" and st: "stOK e st"
    and i: "placeable e st i"
  shows "remaining e (tick e (place e i st)) < remaining e st"
proof -
  have il: "i < length (e_placements e)" using i by (simp add: placeable_def)
  then have "e_placements e ! i \<in> set (e_placements e)" by (rule nth_mem)
  then have "placementFrom (e_boardSet e) (e_tiles e) (e_placements e ! i)"
    using e unfolding envOK_def by blast
  then have "cells (e_placements e ! i) \<noteq> []" using ne by (rule placementFrom_nonempty)
  then obtain k where k: "length (cells (e_placements e ! i)) = Suc k"
    by (cases "cells (e_placements e ! i)") auto
  have after: "length (cellsOf e (usedPlacements st) @ cells (e_placements e ! i)) \<le> e_totalCells e"
    using covered_bound [OF e place_stOK [OF e st i]] by (simp add: place_def Let_def cellsOf_append)
  have "remaining e (place e i st) < remaining e st"
    using k after by (simp add: remaining_def place_def Let_def cellsOf_append)
  then show ?thesis using sameCore_remaining [OF sameCore_tick, of e e "place e i st"] by simp
qed

lemma rec_ret_step:
  assumes "loopRet e n"
  shows "recRet e (Suc n)"
  using assms unfolding recRet_def loopRet_def by simp

lemma loop_ret_step:
  assumes e: "envOK e" and ne: "nonemptyBases (e_tiles e)" and L: "loopRet e n" and B: "branchRet e n"
  shows "loopRet e (Suc n)"
  unfolding loopRet_def
proof (intro allI impI)
  fix tr st
  assume st: "stOK e st" and sols: "solsOK e st" and fuel: "3 * remaining e st + 1 \<le> Suc n"
  show "loop e (Suc n) tr st \<noteq> None"
  proof (cases "coveredCount st = int (e_totalCells e)")
    case True
    then show ?thesis by simp
  next
    case False
    obtain cellK pids where ch: "chooseCellAndPids e st = (cellK, pids)"
      by (cases "chooseCellAndPids e st")
    have pl: "\<forall>i \<in> set pids. placeable e st i"
      by (rule chooseCellAndPids_placeable [OF e ch])
    consider (dead) "length pids = 0" | (forced) "length pids = 1"
      | (many) "length pids \<noteq> 0" "length pids \<noteq> 1" by blast
    then show ?thesis
    proof cases
      case dead
      then show ?thesis using False ch by simp
    next
      case forced
      let ?i = "pids ! 0"
      have i: "placeable e st ?i" using pl forced by (cases pids) auto
      have "3 * remaining e (tick e (place e ?i st)) + 1 \<le> n"
        using place_remaining [OF e ne st i] fuel by linarith
      then have "loop e n (?i # tr) (tick e (place e ?i st)) \<noteq> None"
        using L stOK_tick_place [OF e st i] sols solsOK_tick_place [of e ?i st]
        unfolding loopRet_def by blast
      then show ?thesis using forced False ch by (cases pids) auto
    next
      case many
      obtain pids' pos' where sh: "shuffle (e_rnd e) pids (rpos st) = (pids', pos')"
        by (cases "shuffle (e_rnd e) pids (rpos st)")
      have 1: "stOK e (st\<lparr>rpos := pos'\<rparr>)" using st sameCore_stOK [OF sameCore_rpos] by simp
      have 2: "solsOK e (st\<lparr>rpos := pos'\<rparr>)" using sols by (simp add: solsOK_def)
      have 3: "\<forall>i \<in> set pids'. placeable e (st\<lparr>rpos := pos'\<rparr>) i"
        using pl shuffle_set [OF sh] sameCore_placeable [OF sameCore_rpos] by blast
      obtain i0 where "i0 \<in> set pids" using many by (cases pids) auto
      then have "remaining e (tick e (place e i0 st)) < remaining e st"
        using place_remaining [OF e ne st] pl by blast
      then have "3 * remaining e (st\<lparr>rpos := pos'\<rparr>) \<le> n"
        using fuel sameCore_remaining [OF sameCore_rpos [where st = st and x = pos'], of e] by linarith
      then have "branch e n tr pids' (st\<lparr>rpos := pos'\<rparr>) \<noteq> None"
        using B 1 2 3 unfolding branchRet_def by blast
      then show ?thesis using many False ch sh by simp
    qed
  qed
qed

lemma branch_ret_zero: "envOK e \<Longrightarrow> nonemptyBases (e_tiles e) \<Longrightarrow> branchRet e 0"
  unfolding branchRet_def
proof (intro allI impI)
  fix tr pids st
  assume e: "envOK e" and ne: "nonemptyBases (e_tiles e)" and st: "stOK e st"
    and pl: "\<forall>i \<in> set pids. placeable e st i" and fuel: "3 * remaining e st \<le> 0"
  show "branch e 0 tr pids st \<noteq> None"
  proof (cases pids)
    case Nil
    then show ?thesis by simp
  next
    case (Cons i rest)
    then have "remaining e (tick e (place e i st)) < remaining e st"
      using place_remaining [OF e ne st] pl by simp
    then show ?thesis using fuel by simp
  qed
qed

lemma branch_ret_step:
  assumes e: "envOK e" and ne: "nonemptyBases (e_tiles e)" and R: "recRet e n"
  shows "branchRet e (Suc n)"
proof -
  have "stOK e st \<Longrightarrow> solsOK e st \<Longrightarrow> \<forall>i \<in> set pids. placeable e st i
        \<Longrightarrow> 3 * remaining e st \<le> Suc n \<Longrightarrow> branch e (Suc n) tr pids st \<noteq> None"
    for tr pids st
  proof (induction pids arbitrary: st)
    case Nil
    then show ?case by simp
  next
    case (Cons i pids)
    have i: "placeable e st i" using Cons.prems(3) by simp
    let ?s = "tick e (place e i st)"
    have ok: "stOK e ?s" by (rule stOK_tick_place [OF e Cons.prems(1) i])
    have sols: "solsOK e ?s" using Cons.prems(2) solsOK_tick_place [of e i st] by simp
    have "3 * remaining e ?s + 2 \<le> n"
      using place_remaining [OF e ne Cons.prems(1) i] Cons.prems(4) by linarith
    then have "rec e n ?s \<noteq> None" using R ok sols unfolding recRet_def by blast
    then obtain st1 where r: "rec e n ?s = Some st1" by blast
    have p1: "post e st1 ?s"
      using search_post [OF e, of n] ok sols r unfolding recPost_def by blast
    show ?case
    proof (cases "int (length (solutions st1)) \<ge> e_cap e")
      case True
      then show ?thesis using r by simp
    next
      case False
      then have sc: "sameCore st1 ?s" using p1 by (simp add: post_def capReached_def)
      let ?st2 = "unplace e i st1"
      have bk: "sameCore ?st2 st" by (rule undo_tick_place [OF i sc])
      have 1: "stOK e ?st2" using Cons.prems(1) sameCore_stOK [OF bk] by simp
      have 2: "solsOK e ?st2"
        using p1 solsOK_cong [OF solutions_unplace, of e e i st1] by (simp add: post_def)
      have 3: "\<forall>j \<in> set pids. placeable e ?st2 j"
        using Cons.prems(3) sameCore_placeable [OF bk] by simp
      have 4: "3 * remaining e ?st2 \<le> Suc n"
        using Cons.prems(4) sameCore_remaining [OF bk, of e] by simp
      have "branch e (Suc n) tr pids ?st2 \<noteq> None" by (rule Cons.IH [OF 1 2 3 4])
      then show ?thesis using r False by simp
    qed
  qed
  then show ?thesis unfolding branchRet_def by blast
qed

lemma search_returns:
  "envOK e \<Longrightarrow> nonemptyBases (e_tiles e) \<Longrightarrow> recRet e n \<and> loopRet e n \<and> branchRet e n"
proof (induction n)
  case 0
  then show ?case by (simp add: recRet_def loopRet_def branch_ret_zero)
next
  case (Suc n)
  then show ?case using rec_ret_step loop_ret_step branch_ret_step by blast
qed

lemma remaining_st0:
  "remaining (envOf rnd W H holes tiles u cap cb ps bc) (st0Of tiles pos0) = length (boardCells W H holes)"
  by (simp add: remaining_def envOf_def st0Of_def cellsOf_def)

lemma enumerate_returns:
  assumes ne: "nonemptyBases tiles" and d: "distinctBases tiles"
    and fuel: "3 * length (boardCells W H holes) + 2 \<le> fuel"
  shows "enumerateTilings fuel rnd pos0 W H holes tiles u cap cb \<noteq> None"
proof -
  obtain ps bc where pre: "precomputePlacements W H (set (boardCells W H holes)) tiles = Some (ps, bc)"
    using precomputePlacements_returns [OF ne] by blast
  let ?e = "envOf rnd W H holes tiles u cap cb ps bc"
  have e: "envOK ?e" by (rule envOf_ok [OF pre d])
  have "nonemptyBases (e_tiles ?e)" using ne by (simp add: envOf_def)
  then have "recRet ?e fuel" using search_returns [OF e] by blast
  then have "rec ?e fuel (st0Of tiles pos0) \<noteq> None"
    using st0_ok st0_sols fuel remaining_st0 unfolding recRet_def by metis
  then show ?thesis unfolding enumerateTilings_unfold using pre by (auto split: option.splits)
qed

section \<open>The exact-cover matrix\<close>

lemma colIndex_fold:
  "distinct cs \<Longrightarrow>
   fst (foldl (\<lambda>(m, n) k. (m(k \<mapsto> n), Suc n)) (m, n) cs) k = Some c
   \<longleftrightarrow> ((\<exists>i < length cs. cs ! i = k \<and> c = n + i) \<or> (k \<notin> set cs \<and> m k = Some c))"
proof (induction cs arbitrary: m n)
  case Nil
  then show ?case by simp
next
  case (Cons a cs)
  have d: "distinct cs" and a: "a \<notin> set cs" using Cons.prems by auto
  have eq: "foldl (\<lambda>(m, n) k. (m(k \<mapsto> n), Suc n)) (m, n) (a # cs)
            = foldl (\<lambda>(m, n) k. (m(k \<mapsto> n), Suc n)) (m(a \<mapsto> n), Suc n) cs"
    by simp
  have "fst (foldl (\<lambda>(m, n) k. (m(k \<mapsto> n), Suc n)) (m, n) (a # cs)) k = Some c
        \<longleftrightarrow> ((\<exists>i < length cs. cs ! i = k \<and> c = Suc n + i) \<or> (k \<notin> set cs \<and> (m(a \<mapsto> n)) k = Some c))"
    unfolding eq by (rule Cons.IH [OF d])
  also have "\<dots> \<longleftrightarrow> ((\<exists>i < length (a # cs). (a # cs) ! i = k \<and> c = n + i)
                    \<or> (k \<notin> set (a # cs) \<and> m k = Some c))"
  proof (cases "k = a")
    case True
    have "\<not> (\<exists>i < length cs. cs ! i = k)" using a True by (metis nth_mem)
    moreover have "(\<exists>i < length (a # cs). (a # cs) ! i = k \<and> c = n + i) \<longleftrightarrow> c = n"
    proof
      assume "\<exists>i < length (a # cs). (a # cs) ! i = k \<and> c = n + i"
      then obtain i where i: "i < length (a # cs)" "(a # cs) ! i = k" "c = n + i" by blast
      have "i = 0"
      proof (rule ccontr)
        assume "i \<noteq> 0"
        then obtain j where "i = Suc j" by (cases i) auto
        then have "cs ! j = a" "j < length cs" using i True by auto
        then show False using a by (metis nth_mem)
      qed
      then show "c = n" using i by simp
    next
      assume "c = n"
      then show "\<exists>i < length (a # cs). (a # cs) ! i = k \<and> c = n + i"
        using True by (intro exI [of _ 0]) simp
    qed
    ultimately show ?thesis using True a by auto
  next
    case False
    have "(\<exists>i < length (a # cs). (a # cs) ! i = k \<and> c = n + i)
          \<longleftrightarrow> (\<exists>i < length cs. cs ! i = k \<and> c = Suc n + i)"
    proof
      assume "\<exists>i < length (a # cs). (a # cs) ! i = k \<and> c = n + i"
      then obtain i where i: "i < length (a # cs)" "(a # cs) ! i = k" "c = n + i" by blast
      then obtain j where "i = Suc j" using False by (cases i) auto
      then show "\<exists>i < length cs. cs ! i = k \<and> c = Suc n + i" using i by auto
    next
      assume "\<exists>i < length cs. cs ! i = k \<and> c = Suc n + i"
      then obtain j where "j < length cs" "cs ! j = k" "c = Suc n + j" by blast
      then show "\<exists>i < length (a # cs). (a # cs) ! i = k \<and> c = n + i"
        by (intro exI [of _ "Suc j"]) simp
    qed
    then show ?thesis using False by auto
  qed
  finally show ?case .
qed

lemma colIndexOf_iff:
  "distinct cs \<Longrightarrow> colIndexOf cs k = Some c \<longleftrightarrow> (c < length cs \<and> cs ! c = k)"
  unfolding colIndexOf_def using colIndex_fold [of cs Map.empty 0 k c] by auto

lemma those_Some: "those xs = Some ys \<Longrightarrow> xs = map Some ys"
  by (induction xs arbitrary: ys) (auto split: option.splits)

lemma buildRows_ok:
  "\<forall>rw \<in> set (buildRows ci ps).
     pid rw < length ps \<and> r_ti rw = ti (ps ! pid rw) \<and> map ci (cells (ps ! pid rw)) = map Some (cols rw)"
  unfolding buildRows_def
proof (rule foldl_invariant [where P = "\<lambda>rs::row list. \<forall>rw \<in> set rs. pid rw < length ps \<and> r_ti rw = ti (ps ! pid rw)
                                     \<and> map ci (cells (ps ! pid rw)) = map Some (cols rw)"])
  show "\<forall>rw \<in> set []. pid rw < length ps \<and> r_ti rw = ti (ps ! pid rw)
          \<and> map ci (cells (ps ! pid rw)) = map Some (cols rw)" by simp
next
  fix rs :: "row list" and p
  assume rs: "\<forall>rw \<in> set rs. pid rw < length ps \<and> r_ti rw = ti (ps ! pid rw)
                \<and> map ci (cells (ps ! pid rw)) = map Some (cols rw)"
    and p: "p \<in> set [0..<length ps]"
  show "\<forall>rw \<in> set (case those (map ci (cells (ps ! p))) of None \<Rightarrow> rs
                     | Some cs \<Rightarrow> rs @ [\<lparr>pid = p, cols = cs, r_ti = ti (ps ! p)\<rparr>]).
          pid rw < length ps \<and> r_ti rw = ti (ps ! pid rw) \<and> map ci (cells (ps ! pid rw)) = map Some (cols rw)"
  proof (cases "those (map ci (cells (ps ! p)))")
    case None
    then show ?thesis using rs by simp
  next
    case (Some cs)
    then show ?thesis using rs p those_Some [OF Some] by auto
  qed
qed

lemma ctr_push_ok:
  assumes "ctrOK n rs ctr" and "r < length rs" and "c \<in> set (cols (rs ! r))"
  shows "ctrOK n rs (ctr[c := ctr ! c @ [r]])"
proof -
  have len: "length ctr = n" using assms(1) by (simp add: ctrOK_def)
  have "ra < length rs \<and> ca \<in> set (cols (rs ! ra))"
    if ca: "ca < n" and ra: "ra \<in> set (ctr[c := ctr ! c @ [r]] ! ca)" for ca ra
  proof -
    have "ra \<in> set (ctr ! ca) \<or> (ca = c \<and> ra = r)"
      using ra ca len by (cases "ca = c") auto
    then show ?thesis using assms ca unfolding ctrOK_def by blast
  qed
  then show ?thesis using len unfolding ctrOK_def by simp
qed

lemma buildColToRows_ok: "ctrOK n rs (buildColToRows n rs)"
  unfolding buildColToRows_def
proof (rule foldl_invariant [where P = "ctrOK n rs"])
  show "ctrOK n rs (replicate n [])" by (simp add: ctrOK_def)
next
  fix ctr r
  assume ctr: "ctrOK n rs ctr" and "r \<in> set [0..<length rs]"
  then have r: "r < length rs" by simp
  show "ctrOK n rs (foldl (\<lambda>ctr1 c. ctr1[c := ctr1 ! c @ [r]]) ctr (cols (rs ! r)))"
  proof (rule foldl_invariant [where P = "ctrOK n rs"])
    show "ctrOK n rs ctr" by (rule ctr)
  next
    fix s c assume "ctrOK n rs s" and "c \<in> set (cols (rs ! r))"
    then show "ctrOK n rs (s[c := s ! c @ [r]])" by (rule ctr_push_ok [OF _ r])
  qed
qed

lemma buildExactCoverData_ok:
  assumes "buildExactCoverData W H holes tiles = Some d"
  shows "xdOK tiles d" and "freeCells d = boardCells W H holes"
proof -
  let ?fc = "boardCells W H holes"
  from assms obtain ps bc where
    pre: "precomputePlacements W H (set ?fc) tiles = Some (ps, bc)"
    and d: "d = \<lparr>freeCells = ?fc, colIndex = colIndexOf ?fc, rows = buildRows (colIndexOf ?fc) ps,
                 colToRows = buildColToRows (length ?fc) (buildRows (colIndexOf ?fc) ps),
                 x_placements = ps\<rparr>"
    by (auto simp: buildExactCoverData_def Let_def split: option.splits)
  show fc: "freeCells d = ?fc" by (simp add: d)
  have 1: "distinct (freeCells d)" by (simp add: d boardCells_distinct)
  have ctr: "ctrOK (length ?fc) (rows d) (colToRows d)"
    using buildColToRows_ok [of "length ?fc" "buildRows (colIndexOf ?fc) ps"] by (simp add: d)
  have 2: "length (colToRows d) = length (freeCells d)" using ctr by (simp add: ctrOK_def d)
  have 3: "\<forall>c < length (colToRows d). \<forall>r \<in> set (colToRows d ! c).
            r < length (rows d) \<and> c \<in> set (cols (rows d ! r))"
    using ctr 2 fc by (simp add: ctrOK_def)
  have 4: "\<forall>rw \<in> set (rows d). pid rw < length (x_placements d)
            \<and> r_ti rw = ti (x_placements d ! pid rw)
            \<and> map (colIndex d) (cells (x_placements d ! pid rw)) = map Some (cols rw)"
    using buildRows_ok [of "colIndexOf ?fc" ps] by (simp add: d)
  have 5: "\<forall>k c. colIndex d k = Some c \<longleftrightarrow> (c < length (freeCells d) \<and> freeCells d ! c = k)"
    using colIndexOf_iff [OF boardCells_distinct [of W H holes]] by (simp add: d)
  have 6: "\<forall>p \<in> set (x_placements d). placementFrom (set (freeCells d)) tiles p"
    using precomputePlacements_ok [OF pre] by (simp add: d)
  from 1 2 3 4 5 6 show "xdOK tiles d" unfolding xdOK_def by blast
qed

lemma buildExactCoverData_returns:
  "nonemptyBases tiles \<Longrightarrow> \<exists>d. buildExactCoverData W H holes tiles = Some d"
  using precomputePlacements_returns [of tiles W H "set (boardCells W H holes)"]
  by (auto simp: buildExactCoverData_def Let_def)

section \<open>Invariants of the first-solution search\<close>

lemma setAll_length: "length (foldl (\<lambda>cc c. cc[c := b]) cc cs) = length cc"
  by (induction cs arbitrary: cc) simp_all

lemma setAll_nth:
  "i < length cc \<Longrightarrow> foldl (\<lambda>cc c. cc[c := b]) cc cs ! i = (if i \<in> set cs then b else cc ! i)"
proof (induction cs arbitrary: cc)
  case Nil
  then show ?case by simp
next
  case (Cons c cs)
  have "i < length (cc[c := b])" using Cons.prems by simp
  from Cons.IH [OF this] show ?case using Cons.prems by (auto simp: nth_list_update)
qed

lemma xsame_refl: "xsame a a" by (simp add: xsame_def)
lemma xsame_trans: "xsame a b \<Longrightarrow> xsame b c \<Longrightarrow> xsame a c" by (simp add: xsame_def)
lemma xsame_xtick: "xsame (xtick st) st" by (simp add: xsame_def xtick_def Let_def)
lemma xsame_rpos: "xsame (st\<lparr>x_rpos := p\<rparr>) st" by (simp add: xsame_def)
lemma xsame_xstOK: "xsame a b \<Longrightarrow> xstOK tiles d a = xstOK tiles d b"
  by (simp add: xsame_def xstOK_def)
lemma xsame_candOK: "xsame a b \<Longrightarrow> candOK tiles d a r = candOK tiles d b r"
  by (simp add: xsame_def candOK_def)
lemma xsame_uncov: "xsame a b \<Longrightarrow> uncov a = uncov b"
  by (simp add: xsame_def uncov_def)
lemma xsame_allCovered: "xsame a b \<Longrightarrow> allCovered a = allCovered b"
  by (simp add: xsame_def allCovered_def)

lemma chosen_fields:
  "coveredCols (chosen d r st) = foldl (\<lambda>cc c. cc[c := True]) (coveredCols st) (cols (rows d ! r))"
  "solutionRows (chosen d r st) = solutionRows st @ [r]"
  "x_usedCounts (chosen d r st)
     = (x_usedCounts st)[r_ti (rows d ! r) := x_usedCounts st ! r_ti (rows d ! r) + 1]"
  "butlast (bannedRowsStack (chosen d r st)) = bannedRowsStack st"
  by (simp_all add: chosen_def chooseRow_def Let_def split: prod.splits)

lemma unchosen_fields:
  "coveredCols (unchosen d r st) = foldl (\<lambda>cc c. cc[c := False]) (coveredCols st) (cols (rows d ! r))"
  "solutionRows (unchosen d r st) = butlast (solutionRows st)"
  "x_usedCounts (unchosen d r st)
     = (x_usedCounts st)[r_ti (rows d ! r) := x_usedCounts st ! r_ti (rows d ! r) - 1]"
  "bannedRowsStack (unchosen d r st) = butlast (bannedRowsStack st)"
  by (simp_all add: unchosen_def unchooseRow_def Let_def)

lemma undo_cols:
  assumes "\<forall>c \<in> set cs. c < length cc \<longrightarrow> \<not> cc ! c"
  shows "foldl (\<lambda>cc c. cc[c := False]) (foldl (\<lambda>cc c. cc[c := True]) cc cs) cs = cc"
proof (rule nth_equalityI)
  show "length (foldl (\<lambda>cc c. cc[c := False]) (foldl (\<lambda>cc c. cc[c := True]) cc cs) cs) = length cc"
    by (simp add: setAll_length)
next
  fix i assume "i < length (foldl (\<lambda>cc c. cc[c := False]) (foldl (\<lambda>cc c. cc[c := True]) cc cs) cs)"
  then have i: "i < length cc" by (simp add: setAll_length)
  then show "foldl (\<lambda>cc c. cc[c := False]) (foldl (\<lambda>cc c. cc[c := True]) cc cs) cs ! i = cc ! i"
    using assms by (simp add: setAll_nth setAll_length)
qed

lemma undo_chosen:
  assumes c: "candOK tiles d st r" and s: "xsame st' (chosen d r st)"
  shows "xsame (unchosen d r st') st"
proof -
  have free: "\<forall>c \<in> set (cols (rows d ! r)). c < length (coveredCols st) \<longrightarrow> \<not> coveredCols st ! c"
    using c by (simp add: candOK_def)
  have 1: "coveredCols (unchosen d r st') = coveredCols st"
    using s undo_cols [OF free] by (simp add: xsame_def unchosen_fields chosen_fields)
  have 2: "solutionRows (unchosen d r st') = solutionRows st"
    using s by (simp add: xsame_def unchosen_fields chosen_fields)
  have 3: "x_usedCounts (unchosen d r st') = x_usedCounts st"
    using s by (simp add: xsame_def unchosen_fields chosen_fields inc_dec_update)
  have 4: "bannedRowsStack (unchosen d r st') = bannedRowsStack st"
    using s by (simp add: xsame_def unchosen_fields chosen_fields)
  from 1 2 3 4 show ?thesis by (simp add: xsame_def)
qed

lemma xd_row:
  assumes d: "xdOK tiles d" and r: "r < length (rows d)"
  shows "r_ti (rows d ! r) < length tiles"
    and "\<forall>c \<in> set (cols (rows d ! r)). c < length (freeCells d)"
proof -
  have rw: "rows d ! r \<in> set (rows d)" using r by (rule nth_mem)
  then have p: "pid (rows d ! r) < length (x_placements d)"
    and t: "r_ti (rows d ! r) = ti (x_placements d ! pid (rows d ! r))"
    and m: "map (colIndex d) (cells (x_placements d ! pid (rows d ! r))) = map Some (cols (rows d ! r))"
    using d unfolding xdOK_def by blast+
  have "x_placements d ! pid (rows d ! r) \<in> set (x_placements d)" using p by (rule nth_mem)
  then have "placementFrom (set (freeCells d)) tiles (x_placements d ! pid (rows d ! r))"
    using d unfolding xdOK_def by blast
  then show "r_ti (rows d ! r) < length tiles" using t by (simp add: placementFrom_def)
  show "\<forall>c \<in> set (cols (rows d ! r)). c < length (freeCells d)"
  proof
    fix c assume "c \<in> set (cols (rows d ! r))"
    then have "Some c \<in> set (map (colIndex d) (cells (x_placements d ! pid (rows d ! r))))"
      unfolding m by simp
    then obtain k where "colIndex d k = Some c" by auto
    then show "c < length (freeCells d)" using d unfolding xdOK_def by blast
  qed
qed

lemma rowCount_append:
  "rowCount d (rs @ [r]) c = rowCount d rs c + (if c \<in> set (cols (rows d ! r)) then 1 else 0)"
  by (simp add: rowCount_def)

lemma rowUses_append:
  "rowUses d (rs @ [r]) t = rowUses d rs t + (if r_ti (rows d ! r) = t then 1 else 0)"
  by (simp add: rowUses_def)

lemma chosen_ok:
  assumes d: "xdOK tiles d" and st: "xstOK tiles d st" and c: "candOK tiles d st r"
  shows "xstOK tiles d (chosen d r st)"
proof -
  let ?t = "r_ti (rows d ! r)"
  have r: "r < length (rows d)" using c by (simp add: candOK_def)
  have len: "length (coveredCols st) = length (freeCells d)" using st by (simp add: xstOK_def)
  have ulen: "length (x_usedCounts st) = length tiles" using st by (simp add: xstOK_def)
  have stock: "stockLeft tiles (x_usedCounts st) ?t" using c by (simp add: candOK_def)
  have 1: "length (coveredCols (chosen d r st)) = length (freeCells d)"
    using len by (simp add: chosen_fields setAll_length)
  have 2: "\<forall>r' \<in> set (solutionRows (chosen d r st)). r' < length (rows d)"
    using st r by (auto simp: xstOK_def chosen_fields)
  have 3: "\<forall>c < length (freeCells d).
             rowCount d (solutionRows (chosen d r st)) c = (if coveredCols (chosen d r st) ! c then 1 else 0)"
  proof (intro allI impI)
    fix k assume k: "k < length (freeCells d)"
    have old: "rowCount d (solutionRows st) k = (if coveredCols st ! k then 1 else 0)"
      using st k unfolding xstOK_def by blast
    show "rowCount d (solutionRows (chosen d r st)) k = (if coveredCols (chosen d r st) ! k then 1 else 0)"
    proof (cases "k \<in> set (cols (rows d ! r))")
      case True
      then have "\<not> coveredCols st ! k" using c by (simp add: candOK_def)
      then show ?thesis using True old k len by (simp add: chosen_fields rowCount_append setAll_nth)
    next
      case False
      then show ?thesis using old k len by (simp add: chosen_fields rowCount_append setAll_nth)
    qed
  qed
  have 4: "length (x_usedCounts (chosen d r st)) = length tiles"
    using ulen by (simp add: chosen_fields)
  have 5: "\<forall>t < length tiles. x_usedCounts (chosen d r st) ! t = int (rowUses d (solutionRows (chosen d r st)) t)"
  proof (intro allI impI)
    fix t assume t: "t < length tiles"
    have "x_usedCounts st ! t = int (rowUses d (solutionRows st) t)"
      using st t unfolding xstOK_def by blast
    then show "x_usedCounts (chosen d r st) ! t = int (rowUses d (solutionRows (chosen d r st)) t)"
      using t ulen by (simp add: chosen_fields rowUses_append nth_list_update)
  qed
  have 6: "nonnegCounts tiles \<longrightarrow>
           (\<forall>t < length tiles. \<forall>lim. count (tiles ! t) = Some lim \<longrightarrow> x_usedCounts (chosen d r st) ! t \<le> lim)"
  proof (intro impI allI)
    fix t lim
    assume nn: "nonnegCounts tiles" and t: "t < length tiles" and lim: "count (tiles ! t) = Some lim"
    have old: "x_usedCounts st ! t \<le> lim" using st nn t lim unfolding xstOK_def by blast
    show "x_usedCounts (chosen d r st) ! t \<le> lim"
    proof (cases "t = ?t")
      case True
      then have "\<not> lim \<le> x_usedCounts st ! t" using stock lim by (simp add: stockLeft_def)
      then show ?thesis using True t ulen by (simp add: chosen_fields)
    next
      case False
      then show ?thesis using old by (simp add: chosen_fields)
    qed
  qed
  from 1 2 3 4 5 6 show ?thesis unfolding xstOK_def by blast
qed

lemma chosen_uncov:
  assumes st: "xstOK tiles d st" and c: "candOK tiles d st r"
  shows "uncov (chosen d r st) < uncov st"
proof -
  let ?cs = "cols (rows d ! r)"
  have len: "length (coveredCols st) = length (freeCells d)" using st by (simp add: xstOK_def)
  obtain c0 where c0: "c0 \<in> set ?cs" using c by (cases ?cs) (auto simp: candOK_def)
  then have c0': "c0 < length (coveredCols st)" "\<not> coveredCols st ! c0"
    using c len by (auto simp: candOK_def)
  have "{i. i < length (coveredCols (chosen d r st)) \<and> \<not> coveredCols (chosen d r st) ! i}
        = {i. i < length (coveredCols st) \<and> \<not> coveredCols st ! i} - set ?cs"
    by (auto simp: chosen_fields setAll_length setAll_nth split: if_splits)
  also have "\<dots> \<subset> {i. i < length (coveredCols st) \<and> \<not> coveredCols st ! i}"
    using c0 c0' by blast
  finally show ?thesis unfolding uncov_def by (intro psubset_card_mono) simp_all
qed

lemma candidates_candOK:
  assumes d: "xdOK tiles d" and c: "c < length (colToRows d)"
    and r: "r \<in> set (candidatesOf tiles d st c)"
  shows "candOK tiles d st r"
proof -
  have rc: "r \<in> set (colToRows d ! c)" using r by (simp add: candidatesOf_def)
  then have rl: "r < length (rows d)" and cin: "c \<in> set (cols (rows d ! r))"
    using d c unfolding xdOK_def by blast+
  have "cols (rows d ! r) \<noteq> []" using cin by auto
  moreover have "\<forall>c' \<in> set (cols (rows d ! r)). \<not> coveredCols st ! c'"
    using r by (simp add: candidatesOf_def list_all_iff)
  moreover have "stockLeft tiles (x_usedCounts st) (r_ti (rows d ! r))"
    using r by (simp add: candidatesOf_def usableRow_def)
  ultimately show ?thesis using rl xd_row(2) [OF d rl] by (simp add: candOK_def)
qed

lemma chooseColLoop_range:
  "chooseColLoop tiles d st cs best bl = Some c \<Longrightarrow> c \<in> set cs \<or> best = Some c"
  by (induction cs arbitrary: best bl) (auto simp: Let_def split: if_splits)

lemma chooseColumn_range: "chooseColumn tiles d st = Some c \<Longrightarrow> c < length (colToRows d)"
  using chooseColLoop_range [of tiles d st "[0..<length (colToRows d)]" None 1000000000 c]
  by (simp add: chooseColumn_def)

lemma tryRows_Cons:
  "tryRows tiles rnd d n (r # rs) st =
     (case dfs tiles rnd d n (chosen d r st) of
        None \<Rightarrow> None
      | Some (True, st') \<Rightarrow> Some (True, st')
      | Some (False, st') \<Rightarrow> tryRows tiles rnd d n rs (unchosen d r st'))"
  unfolding chosen_def unchosen_def by simp

lemma xpost_trans: "xpost tiles d a res \<Longrightarrow> xsame a b \<Longrightarrow> xpost tiles d b res"
  unfolding xpost_def using xsame_trans by (cases "fst res") auto

lemma try_post_step:
  assumes d: "xdOK tiles d" and D: "dfsPost tiles rnd d n"
  shows "tryPost tiles rnd d n"
proof -
  have "xstOK tiles d st \<Longrightarrow> \<forall>r \<in> set rs. candOK tiles d st r
        \<Longrightarrow> tryRows tiles rnd d n rs st = Some res \<Longrightarrow> xpost tiles d st res" for rs st res
  proof (induction rs arbitrary: st)
    case Nil
    then show ?case by (auto simp: xpost_def xsame_refl)
  next
    case (Cons r rs)
    have c: "candOK tiles d st r" using Cons.prems(2) by simp
    have ok: "xstOK tiles d (chosen d r st)" by (rule chosen_ok [OF d Cons.prems(1) c])
    from Cons.prems(3) obtain b st1 where r1: "dfs tiles rnd d n (chosen d r st) = Some (b, st1)"
      unfolding tryRows_Cons by (auto split: option.splits)
    have p1: "xpost tiles d (chosen d r st) (b, st1)"
      using D ok r1 unfolding dfsPost_def by blast
    show ?case
    proof (cases b)
      case True
      then have "res = (True, st1)" using Cons.prems(3) r1 unfolding tryRows_Cons by simp
      then show ?thesis using p1 True by (simp add: xpost_def)
    next
      case False
      then have s1: "xsame st1 (chosen d r st)" using p1 by (simp add: xpost_def)
      have bk: "xsame (unchosen d r st1) st" by (rule undo_chosen [OF c s1])
      have nxt: "tryRows tiles rnd d n rs (unchosen d r st1) = Some res"
        using Cons.prems(3) r1 False unfolding tryRows_Cons by simp
      have 1: "xstOK tiles d (unchosen d r st1)" using Cons.prems(1) xsame_xstOK [OF bk] by simp
      have 2: "\<forall>r' \<in> set rs. candOK tiles d (unchosen d r st1) r'"
        using Cons.prems(2) xsame_candOK [OF bk] by simp
      have "xpost tiles d (unchosen d r st1) res" by (rule Cons.IH [OF 1 2 nxt])
      then show ?thesis using bk by (rule xpost_trans)
    qed
  qed
  then show ?thesis unfolding tryPost_def by blast
qed

text \<open>The cases of one call of \<open>dfs\<close> with fuel left.\<close>

lemma dfs_Suc_cases:
  assumes "xdOK tiles d"
  obtains (complete) "allCovered (xtick st)" "dfs tiles rnd d (Suc n) st = Some (True, xtick st)"
  | (stuck) "\<not> allCovered (xtick st)" "dfs tiles rnd d (Suc n) st = Some (False, xtick st)"
  | (descend) rs pos' where "\<not> allCovered (xtick st)"
      "\<forall>r \<in> set rs. candOK tiles d (xtick st) r"
      "dfs tiles rnd d (Suc n) st = tryRows tiles rnd d n rs ((xtick st)\<lparr>x_rpos := pos'\<rparr>)"
proof (cases "allCovered (xtick st)")
  case True
  then show ?thesis using complete by (simp add: Let_def)
next
  case nc: False
  show ?thesis
  proof (cases "chooseColumn tiles d (xtick st)")
    case None
    then show ?thesis using stuck nc by (simp add: Let_def)
  next
    case (Some c)
    have c: "c < length (colToRows d)" by (rule chooseColumn_range [OF Some])
    show ?thesis
    proof (cases "length (colToRows d ! c) = 0 \<or> length (candidatesOf tiles d (xtick st) c) = 0")
      case True
      then show ?thesis using stuck nc Some by (auto simp: Let_def)
    next
      case False
      obtain rs pos' where sh: "shuffle rnd (candidatesOf tiles d (xtick st) c) (x_rpos (xtick st)) = (rs, pos')"
        by (cases "shuffle rnd (candidatesOf tiles d (xtick st) c) (x_rpos (xtick st))")
      have "\<forall>r \<in> set rs. candOK tiles d (xtick st) r"
        using shuffle_set [OF sh] candidates_candOK [OF assms c] by blast
      moreover have "dfs tiles rnd d (Suc n) st = tryRows tiles rnd d n rs ((xtick st)\<lparr>x_rpos := pos'\<rparr>)"
        using nc Some False sh by (simp add: Let_def)
      ultimately show ?thesis using descend nc by blast
    qed
  qed
qed

lemma dfs_post_step:
  assumes d: "xdOK tiles d" and T: "tryPost tiles rnd d n"
  shows "dfsPost tiles rnd d (Suc n)"
  unfolding dfsPost_def
proof (intro allI impI)
  fix st res
  assume st: "xstOK tiles d st" and r: "dfs tiles rnd d (Suc n) st = Some res"
  have ok1: "xstOK tiles d (xtick st)" using st xsame_xstOK [OF xsame_xtick] by simp
  show "xpost tiles d st res"
    using d
  proof (cases rule: dfs_Suc_cases [where st = st and rnd = rnd and n = n])
    case complete
    then show ?thesis using r ok1 by (auto simp: xpost_def)
  next
    case stuck
    then show ?thesis using r by (auto simp: xpost_def xsame_xtick)
  next
    case (descend rs pos')
    let ?s = "(xtick st)\<lparr>x_rpos := pos'\<rparr>"
    have s: "xsame ?s st" by (rule xsame_trans [OF xsame_rpos xsame_xtick])
    have 1: "xstOK tiles d ?s" using st xsame_xstOK [OF s] by simp
    have 2: "\<forall>r \<in> set rs. candOK tiles d ?s r"
      using descend(2) xsame_candOK [OF xsame_rpos] by blast
    have "tryRows tiles rnd d n rs ?s = Some res" using r descend(3) by simp
    then have "xpost tiles d ?s res" using T 1 2 unfolding tryPost_def by blast
    then show ?thesis using s by (rule xpost_trans)
  qed
qed

lemma dfs_post: "xdOK tiles d \<Longrightarrow> dfsPost tiles rnd d n \<and> tryPost tiles rnd d n"
proof (induction n)
  case 0
  have "dfsPost tiles rnd d 0" by (simp add: dfsPost_def)
  then show ?case using try_post_step [OF 0] by blast
next
  case (Suc n)
  then have "dfsPost tiles rnd d (Suc n)" using dfs_post_step by blast
  then show ?case using try_post_step [OF Suc.prems] by blast
qed

lemma try_ret_step:
  assumes d: "xdOK tiles d" and D: "dfsRet tiles rnd d n"
  shows "tryRet tiles rnd d n"
proof -
  have "xstOK tiles d st \<Longrightarrow> \<forall>r \<in> set rs. candOK tiles d st r \<Longrightarrow> uncov st \<le> n
        \<Longrightarrow> tryRows tiles rnd d n rs st \<noteq> None" for rs st
  proof (induction rs arbitrary: st)
    case Nil
    then show ?case by simp
  next
    case (Cons r rs)
    have c: "candOK tiles d st r" using Cons.prems(2) by simp
    have ok: "xstOK tiles d (chosen d r st)" by (rule chosen_ok [OF d Cons.prems(1) c])
    have "uncov (chosen d r st) + 1 \<le> n"
      using chosen_uncov [OF Cons.prems(1) c] Cons.prems(3) by linarith
    then have "dfs tiles rnd d n (chosen d r st) \<noteq> None" using D ok unfolding dfsRet_def by blast
    then obtain b st1 where r1: "dfs tiles rnd d n (chosen d r st) = Some (b, st1)" by auto
    have p1: "xpost tiles d (chosen d r st) (b, st1)"
      using dfs_post [OF d, of rnd n] ok r1 unfolding dfsPost_def by blast
    show ?case
    proof (cases b)
      case True
      then show ?thesis using r1 unfolding tryRows_Cons by simp
    next
      case False
      then have s1: "xsame st1 (chosen d r st)" using p1 by (simp add: xpost_def)
      have bk: "xsame (unchosen d r st1) st" by (rule undo_chosen [OF c s1])
      have 1: "xstOK tiles d (unchosen d r st1)" using Cons.prems(1) xsame_xstOK [OF bk] by simp
      have 2: "\<forall>r' \<in> set rs. candOK tiles d (unchosen d r st1) r'"
        using Cons.prems(2) xsame_candOK [OF bk] by simp
      have 3: "uncov (unchosen d r st1) \<le> n" using Cons.prems(3) xsame_uncov [OF bk] by simp
      have "tryRows tiles rnd d n rs (unchosen d r st1) \<noteq> None" by (rule Cons.IH [OF 1 2 3])
      then show ?thesis using r1 False unfolding tryRows_Cons by simp
    qed
  qed
  then show ?thesis unfolding tryRet_def by blast
qed

lemma dfs_ret_step:
  assumes d: "xdOK tiles d" and T: "tryRet tiles rnd d n"
  shows "dfsRet tiles rnd d (Suc n)"
  unfolding dfsRet_def
proof (intro allI impI)
  fix st
  assume st: "xstOK tiles d st" and fuel: "uncov st + 1 \<le> Suc n"
  show "dfs tiles rnd d (Suc n) st \<noteq> None"
    using d
  proof (cases rule: dfs_Suc_cases [where st = st and rnd = rnd and n = n])
    case complete
    then show ?thesis by simp
  next
    case stuck
    then show ?thesis by simp
  next
    case (descend rs pos')
    let ?s = "(xtick st)\<lparr>x_rpos := pos'\<rparr>"
    have s: "xsame ?s st" by (rule xsame_trans [OF xsame_rpos xsame_xtick])
    have 1: "xstOK tiles d ?s" using st xsame_xstOK [OF s] by simp
    have 2: "\<forall>r \<in> set rs. candOK tiles d ?s r"
      using descend(2) xsame_candOK [OF xsame_rpos] by blast
    have 3: "uncov ?s \<le> n" using fuel xsame_uncov [OF s] by simp
    have "tryRows tiles rnd d n rs ?s \<noteq> None" using T 1 2 3 unfolding tryRet_def by blast
    then show ?thesis using descend(3) by simp
  qed
qed

lemma dfs_returns: "xdOK tiles d \<Longrightarrow> dfsRet tiles rnd d n \<and> tryRet tiles rnd d n"
proof (induction n)
  case 0
  have "dfsRet tiles rnd d 0" by (simp add: dfsRet_def)
  then show ?case using try_ret_step [OF 0] by blast
next
  case (Suc n)
  then have "dfsRet tiles rnd d (Suc n)" using dfs_ret_step by blast
  then show ?case using try_ret_step [OF Suc.prems] by blast
qed

lemma solveFirstExactCover_unfold:
  "solveFirstExactCover fuel rnd pos0 W H holes tiles u =
     (case buildExactCoverData W H holes tiles of
        None \<Rightarrow> None
      | Some d \<Rightarrow>
          if (case maxAreaOf tiles of None \<Rightarrow> False | Some m \<Rightarrow> m < int (length (freeCells d)))
          then Some (\<lparr>found = 0, layout = None, score = None\<rparr>, [], pos0)
          else (case dfs tiles rnd d fuel (xst0Of tiles d pos0) of
                  None \<Rightarrow> None
                | Some (okFlag, st) \<Rightarrow>
                    if \<not> okFlag
                    then Some (\<lparr>found = 0, layout = None, score = None\<rparr>, x_posted st, x_rpos st)
                    else Some (\<lparr>found = 1, layout = Some (xlayoutOf d (solutionRows st)), score = None\<rparr>,
                               x_posted st, x_rpos st)))"
  unfolding solveFirstExactCover_def Let_def xst0Of_def xlayoutOf_def
  by (simp split: option.splits prod.splits)

lemma cell_col:
  assumes d: "xdOK tiles d" and r: "r < length (rows d)" and c: "c < length (freeCells d)"
  shows "freeCells d ! c \<in> set (cells (x_placements d ! pid (rows d ! r)))
         \<longleftrightarrow> c \<in> set (cols (rows d ! r))"
proof -
  let ?cells = "cells (x_placements d ! pid (rows d ! r))"
  have rw: "rows d ! r \<in> set (rows d)" using r by (rule nth_mem)
  have m: "map (colIndex d) ?cells = map Some (cols (rows d ! r))"
    using d rw unfolding xdOK_def by blast
  have ci: "\<And>k c'. colIndex d k = Some c' \<longleftrightarrow> (c' < length (freeCells d) \<and> freeCells d ! c' = k)"
    using d unfolding xdOK_def by blast
  show ?thesis
  proof
    assume "freeCells d ! c \<in> set ?cells"
    then have "colIndex d (freeCells d ! c) \<in> set (map (colIndex d) ?cells)" by simp
    moreover have "colIndex d (freeCells d ! c) = Some c" using ci c by blast
    ultimately have "Some c \<in> set (map Some (cols (rows d ! r)))" unfolding m by simp
    then show "c \<in> set (cols (rows d ! r))" by auto
  next
    assume "c \<in> set (cols (rows d ! r))"
    then have "Some c \<in> set (map (colIndex d) ?cells)" unfolding m by simp
    then obtain k where k: "k \<in> set ?cells" and "colIndex d k = Some c" by auto
    then have "freeCells d ! c = k" using ci by blast
    then show "freeCells d ! c \<in> set ?cells" using k by simp
  qed
qed

lemma xlayout_coverCount:
  assumes d: "xdOK tiles d" and rs: "\<forall>r \<in> set rs. r < length (rows d)" and c: "c < length (freeCells d)"
  shows "coverCount (xlayoutOf d rs) (freeCells d ! c) = rowCount d rs c"
proof -
  have "filter (\<lambda>r. freeCells d ! c \<in> set (cells (x_placements d ! pid (rows d ! r)))) rs
        = filter (\<lambda>r. c \<in> set (cols (rows d ! r))) rs"
    by (rule filter_cong [OF refl]) (use cell_col [OF d _ c] rs in blast)
  then show ?thesis
    by (simp add: coverCount_def xlayoutOf_def rowCount_def filter_map comp_def)
qed

lemma xlayout_typeCount:
  assumes d: "xdOK tiles d" and rs: "\<forall>r \<in> set rs. r < length (rows d)"
  shows "typeCount (xlayoutOf d rs) t = rowUses d rs t"
proof -
  have "\<And>r. r \<in> set rs \<Longrightarrow> ti (x_placements d ! pid (rows d ! r)) = r_ti (rows d ! r)"
  proof -
    fix r assume "r \<in> set rs"
    then have "rows d ! r \<in> set (rows d)" using rs by simp
    then show "ti (x_placements d ! pid (rows d ! r)) = r_ti (rows d ! r)"
      using d unfolding xdOK_def by simp
  qed
  then have "filter (\<lambda>r. ti (x_placements d ! pid (rows d ! r)) = t) rs
             = filter (\<lambda>r. r_ti (rows d ! r) = t) rs"
    by (intro filter_cong [OF refl]) simp
  then show ?thesis
    by (simp add: typeCount_def xlayoutOf_def rowUses_def filter_map comp_def)
qed

lemma covered_exactCover:
  assumes d: "xdOK tiles d" and st: "xstOK tiles d st" and all: "allCovered st"
  shows "exactCover (freeCells d) (xlayoutOf d (solutionRows st))"
proof -
  have rs: "\<forall>r \<in> set (solutionRows st). r < length (rows d)" using st by (simp add: xstOK_def)
  have len: "length (coveredCols st) = length (freeCells d)" using st by (simp add: xstOK_def)
  have 1: "list_all (\<lambda>k. coverCount (xlayoutOf d (solutionRows st)) k = 1) (freeCells d)"
    unfolding list_all_iff
  proof
    fix k assume "k \<in> set (freeCells d)"
    then obtain c where c: "c < length (freeCells d)" and k: "k = freeCells d ! c"
      by (auto simp: in_set_conv_nth)
    have "coveredCols st ! c" using all c len by (simp add: allCovered_def list_all_length)
    moreover have "rowCount d (solutionRows st) c = (if coveredCols st ! c then 1 else 0)"
      using st c unfolding xstOK_def by blast
    ultimately show "coverCount (xlayoutOf d (solutionRows st)) k = 1"
      unfolding k xlayout_coverCount [OF d rs c] by simp
  qed
  have 2: "list_all (\<lambda>p. list_all (\<lambda>c. c \<in> set (freeCells d)) (cells p)) (xlayoutOf d (solutionRows st))"
    unfolding list_all_iff
  proof (intro ballI)
    fix p c assume p: "p \<in> set (xlayoutOf d (solutionRows st))" and c: "c \<in> set (cells p)"
    from p obtain r where r: "r \<in> set (solutionRows st)"
      and pc: "cells p = cells (x_placements d ! pid (rows d ! r))"
      by (auto simp: xlayoutOf_def)
    have "rows d ! r \<in> set (rows d)" using r rs by simp
    then have "pid (rows d ! r) < length (x_placements d)" using d unfolding xdOK_def by blast
    then have "x_placements d ! pid (rows d ! r) \<in> set (x_placements d)" by (rule nth_mem)
    then have "placementFrom (set (freeCells d)) tiles (x_placements d ! pid (rows d ! r))"
      using d unfolding xdOK_def by blast
    then show "c \<in> set (freeCells d)" using c pc by (auto simp: placementFrom_def)
  qed
  from 1 2 show ?thesis by (simp add: exactCover_def)
qed

lemma xstOK_withinStock:
  assumes d: "xdOK tiles d" and st: "xstOK tiles d st" and nn: "nonnegCounts tiles"
  shows "withinStock tiles (xlayoutOf d (solutionRows st))"
  unfolding withinStock_def list_all_iff
proof
  fix t assume "t \<in> set [0..<length tiles]"
  then have t: "t < length tiles" by simp
  have rs: "\<forall>r \<in> set (solutionRows st). r < length (rows d)" using st by (simp add: xstOK_def)
  have u: "x_usedCounts st ! t = int (rowUses d (solutionRows st) t)"
    using st t unfolding xstOK_def by blast
  show "case count (tiles ! t) of None \<Rightarrow> True
        | Some lim \<Rightarrow> int (typeCount (xlayoutOf d (solutionRows st)) t) \<le> lim"
  proof (cases "count (tiles ! t)")
    case None
    then show ?thesis by simp
  next
    case (Some lim)
    have "x_usedCounts st ! t \<le> lim" using st nn t Some unfolding xstOK_def by blast
    then show ?thesis using Some u by (simp add: xlayout_typeCount [OF d rs])
  qed
qed

lemma xst0_ok:
  assumes "xdOK tiles d"
  shows "xstOK tiles d (xst0Of tiles d pos0)"
proof -
  have "nonnegCounts tiles \<Longrightarrow> t < length tiles \<Longrightarrow> count (tiles ! t) = Some lim \<Longrightarrow> 0 \<le> lim" for t lim
    by (auto simp: nonnegCounts_def list_all_length split: option.splits)
  moreover have "length (colToRows d) = length (freeCells d)" using assms by (simp add: xdOK_def)
  ultimately show ?thesis
    by (auto simp: xstOK_def xst0Of_def rowCount_def rowUses_def)
qed

lemma xst0_uncov:
  assumes "xdOK tiles d"
  shows "uncov (xst0Of tiles d pos0) = length (freeCells d)"
proof -
  have "length (colToRows d) = length (freeCells d)" using assms by (simp add: xdOK_def)
  moreover have "{i. i < length (freeCells d) \<and> \<not> replicate (length (freeCells d)) False ! i}
                 = {..<length (freeCells d)}" by auto
  ultimately show ?thesis by (simp add: uncov_def xst0Of_def)
qed

lemma solveFirst_sound:
  assumes run: "solveFirstExactCover fuel rnd pos0 W H holes tiles u = Some (res, prog, pos)"
    and lay: "layout res = Some L"
  shows "exactCover (boardCells W H holes) L \<and> (nonnegCounts tiles \<longrightarrow> withinStock tiles L)"
proof -
  from run lay obtain d st where bd: "buildExactCoverData W H holes tiles = Some d"
    and r: "dfs tiles rnd d fuel (xst0Of tiles d pos0) = Some (True, st)"
    and L: "L = xlayoutOf d (solutionRows st)"
    unfolding solveFirstExactCover_unfold by (auto split: option.splits if_splits)
  note d = buildExactCoverData_ok [OF bd]
  have "xpost tiles d (xst0Of tiles d pos0) (True, st)"
    using dfs_post [OF d(1), of rnd fuel] xst0_ok [OF d(1)] r unfolding dfsPost_def by blast
  then have st: "xstOK tiles d st" and all: "allCovered st" by (simp_all add: xpost_def)
  show ?thesis
    using covered_exactCover [OF d(1) st all] xstOK_withinStock [OF d(1) st] unfolding L d(2)
    by simp
qed

lemma solveFirst_returns:
  assumes ne: "nonemptyBases tiles" and fuel: "length (boardCells W H holes) + 1 \<le> fuel"
  shows "solveFirstExactCover fuel rnd pos0 W H holes tiles u \<noteq> None"
proof -
  obtain d where bd: "buildExactCoverData W H holes tiles = Some d"
    using buildExactCoverData_returns [OF ne] by blast
  note d = buildExactCoverData_ok [OF bd]
  have "dfsRet tiles rnd d fuel" using dfs_returns [OF d(1)] by blast
  then have "dfs tiles rnd d fuel (xst0Of tiles d pos0) \<noteq> None"
    using xst0_ok [OF d(1)] xst0_uncov [OF d(1)] fuel d(2) unfolding dfsRet_def by metis
  then show ?thesis
    unfolding solveFirstExactCover_unfold using bd by (auto split: option.splits)
qed

section \<open>Balanced mode and the message handler\<close>

lemma selectLoop_mem:
  "selectLoop sc W H tiles cfg Ls b0 s0 = Inr (Some L', s') \<Longrightarrow> L' \<in> set Ls \<or> b0 = Some L'"
proof (induction Ls arbitrary: b0 s0)
  case Nil
  then show ?case by simp
next
  case (Cons L Ls)
  show ?case
  proof (cases "balanceScore sc W H tiles L cfg")
    case (Inl err)
    then show ?thesis using Cons.prems by simp
  next
    case (Inr s)
    show ?thesis
    proof (cases "fless sc s s0")
      case True
      then have "selectLoop sc W H tiles cfg Ls (Some L) s = Inr (Some L', s')"
        using Cons.prems Inr by simp
      from Cons.IH [OF this] show ?thesis by auto
    next
      case False
      then have "selectLoop sc W H tiles cfg Ls b0 s0 = Inr (Some L', s')"
        using Cons.prems Inr by simp
      from Cons.IH [OF this] show ?thesis by auto
    qed
  qed
qed

lemma selectLoop_throws:
  "selectLoop sc W H tiles cfg Ls b0 s0 = Inl err
   \<Longrightarrow> \<exists>L \<in> set Ls. balanceScore sc W H tiles L cfg = Inl err"
proof (induction Ls arbitrary: b0 s0)
  case Nil
  then show ?case by simp
next
  case (Cons L Ls)
  show ?case
  proof (cases "balanceScore sc W H tiles L cfg")
    case (Inl err')
    then have "err' = err" using Cons.prems by simp
    then show ?thesis using Inl by simp
  next
    case (Inr s)
    show ?thesis
    proof (cases "fless sc s s0")
      case True
      then have "selectLoop sc W H tiles cfg Ls (Some L) s = Inl err"
        using Cons.prems Inr by simp
      from Cons.IH [OF this] show ?thesis by auto
    next
      case False
      then have "selectLoop sc W H tiles cfg Ls b0 s0 = Inl err"
        using Cons.prems Inr by simp
      from Cons.IH [OF this] show ?thesis by auto
    qed
  qed
qed

lemma selectBestBalanced_mem:
  "selectBestBalanced sc W H tiles Ls cfg = Inr (Some L, s) \<Longrightarrow> L \<in> set Ls"
  unfolding selectBestBalanced_def using selectLoop_mem [of sc W H tiles cfg Ls None "finfinity sc" L s]
  by simp

lemma selectBestBalanced_throws:
  "selectBestBalanced sc W H tiles Ls cfg = Inl err
   \<Longrightarrow> \<exists>L \<in> set Ls. balanceScore sc W H tiles L cfg = Inl err"
  unfolding selectBestBalanced_def by (rule selectLoop_throws)

lemma solveBalanced_none_found:
  assumes "enumerateTilings fuel rnd pos0 W H holes tiles u
               (capSolutionsOf (maxSolutionsToEvaluate bal) cap)
               (Some (\<lambda>n f. if f mod 10 = 0 then [(n, f)] else [])) = Some (Inr r)"
    and "en_solutions r = []"
  shows "solveBalanced fuel rnd pos0 sc W H holes tiles u bal cap
           = Some (Inr \<lparr>found = 0, layout = None, score = None\<rparr>, en_posted r, en_rpos r)"
  using assms by (simp add: solveBalanced_def)

lemma solveBalanced_layout:
  assumes "solveBalanced fuel rnd pos0 sc W H holes tiles u bal cap = Some (Inr res, prog, pos)"
    and "layout res = Some L"
  shows "\<exists>r. enumerateTilings fuel rnd pos0 W H holes tiles u
               (capSolutionsOf (maxSolutionsToEvaluate bal) cap)
               (Some (\<lambda>n f. if f mod 10 = 0 then [(n, f)] else [])) = Some (Inr r)
             \<and> L \<in> set (en_solutions r)"
proof -
  let ?run = "enumerateTilings fuel rnd pos0 W H holes tiles u
               (capSolutionsOf (maxSolutionsToEvaluate bal) cap)
               (Some (\<lambda>n f. if f mod 10 = 0 then [(n, f)] else []))"
  from assms(1) obtain r where r: "?run = Some (Inr r)"
    unfolding solveBalanced_def by (auto split: option.splits sum.splits)
  have ne: "length (en_solutions r) \<noteq> 0"
    using assms r unfolding solveBalanced_def by (auto split: if_splits)
  show ?thesis
  proof (cases "selectBestBalanced sc W H tiles (en_solutions r) bal")
    case (Inl err)
    then show ?thesis using assms(1) r ne unfolding solveBalanced_def by simp
  next
    case (Inr w)
    obtain best bestScore where w: "w = (best, bestScore)" by (cases w)
    have "layout res = best"
      using assms(1) r ne Inr w unfolding solveBalanced_def by auto
    then have "selectBestBalanced sc W H tiles (en_solutions r) bal = Inr (Some L, bestScore)"
      using Inr w assms(2) by simp
    then have "L \<in> set (en_solutions r)" by (rule selectBestBalanced_mem)
    then show ?thesis using r by blast
  qed
qed

lemma solveBalanced_throws:
  assumes "solveBalanced fuel rnd pos0 sc W H holes tiles u bal cap = Some (Inl err, prog, pos)"
  shows "areaThrows W H holes tiles
       \<or> (\<exists>r L. enumerateTilings fuel rnd pos0 W H holes tiles u
               (capSolutionsOf (maxSolutionsToEvaluate bal) cap)
               (Some (\<lambda>n f. if f mod 10 = 0 then [(n, f)] else [])) = Some (Inr r)
                \<and> L \<in> set (en_solutions r) \<and> balanceScore sc W H tiles L bal = Inl err)"
proof -
  let ?run = "enumerateTilings fuel rnd pos0 W H holes tiles u
               (capSolutionsOf (maxSolutionsToEvaluate bal) cap)
               (Some (\<lambda>n f. if f mod 10 = 0 then [(n, f)] else []))"
  from assms obtain x where x: "?run = Some x"
    unfolding solveBalanced_def by (auto split: option.splits)
  show ?thesis
  proof (cases x)
    case (Inl e)
    then have "areaThrows W H holes tiles"
      using x unfolding enumerateTilings_unfold by (auto split: option.splits if_splits)
    then show ?thesis by blast
  next
    case (Inr r)
    have ne: "length (en_solutions r) \<noteq> 0"
      using assms x Inr unfolding solveBalanced_def by (auto split: if_splits)
    show ?thesis
    proof (cases "selectBestBalanced sc W H tiles (en_solutions r) bal")
      case (Inl e)
      then have "e = err" using assms x Inr ne unfolding solveBalanced_def by simp
      then have "\<exists>L \<in> set (en_solutions r). balanceScore sc W H tiles L bal = Inl err"
        using Inl selectBestBalanced_throws by blast
      then show ?thesis using x Inr by blast
    next
      case sel: (Inr w)
      obtain best bestScore where w: "w = (best, bestScore)" by (cases w)
      show ?thesis using assms x Inr ne sel w unfolding solveBalanced_def by simp
    qed
  qed
qed

lemma stock_fold:
  "list_all (\<lambda>t. count t \<noteq> None) ts \<Longrightarrow> nonnegCounts ts \<Longrightarrow>
   fst (foldl stockStep (Some a, ev, an) ts)
     = Some (foldl (\<lambda>a t. a + the (count t) * int (length (base t))) a ts)"
proof (induction ts arbitrary: a ev an)
  case Nil
  then show ?case by simp
next
  case (Cons t ts)
  from Cons.prems obtain c where c: "count t = Some c" "0 \<le> c"
    by (auto simp: nonnegCounts_def)
  have rest: "list_all (\<lambda>t. count t \<noteq> None) ts" "nonnegCounts ts"
    using Cons.prems by (auto simp: nonnegCounts_def)
  show ?case
  proof (cases "c = 0")
    case True
    then show ?thesis using c Cons.IH [OF rest, of a ev an] by (simp add: stockStep_def)
  next
    case False
    then have "0 < c" using c by simp
    then show ?thesis
      using c Cons.IH [OF rest, of "a + c * int (length (base t))"] by (simp add: stockStep_def)
  qed
qed

lemma preflight_ok_iff:
  "ok (preflight W H holes tiles) = (reasons (preflight W H holes tiles) = [])"
  by (simp add: preflight_def Let_def case_prod_beta)

lemma preflight_area_reason:
  assumes "fst (foldl stockStep (Some 0, True, False) tiles) = Some m"
    and "m < int (length (boardCells W H holes))"
  shows "InsufficientArea (length (boardCells W H holes)) m \<in> set (reasons (preflight W H holes tiles))"
  using assms by (simp add: preflight_def Let_def case_prod_beta)

lemma preflight_ok_area:
  assumes "ok (preflight W H holes tiles)" and "nonnegCounts tiles"
  shows "\<not> areaThrows W H holes tiles"
proof
  assume a: "areaThrows W H holes tiles"
  then have fin: "list_all (\<lambda>t. count t \<noteq> None) tiles"
    and lt: "foldl (\<lambda>a t. a + the (count t) * int (length (base t))) 0 tiles
              < int (length (boardCells W H holes))"
    by (simp_all add: areaThrows_def)
  have "InsufficientArea (length (boardCells W H holes))
               (foldl (\<lambda>a t. a + the (count t) * int (length (base t))) 0 tiles)
             \<in> set (reasons (preflight W H holes tiles))"
    by (rule preflight_area_reason [OF stock_fold [OF fin assms(2)] lt])
  then show False using assms(1) unfolding preflight_ok_iff by simp
qed

lemma finish_terminal: "\<exists>t. finish res = [t] \<and> terminal t \<and> (\<forall>m. t \<noteq> ErrorMsg m)"
  by (cases "layout res") (simp_all add: finish_def)

lemma finish_none: "layout res = None \<Longrightarrow> finish res = [Infeasible [NoLayoutFound]]"
  by (simp add: finish_def)

lemma progress_not_terminal: "\<forall>m \<in> set (map (\<lambda>(n, f). Progress n f) prog). \<not> terminal m"
  by auto

lemma progress_no_error: "ErrorMsg m \<notin> set (map (\<lambda>(n, f). Progress n f) prog)"
  by auto

lemma onmessage_first:
  assumes "ok (preflight (p_W pl) (p_H pl) (set (p_holes pl)) (p_tileTypes pl))"
    and "p_balance pl = Some bal" and "noBalance bal"
    and "solveFirst fuel rnd 0 (p_W pl) (p_H pl) (set (p_holes pl)) (p_tileTypes pl)
             (p_uniqueByBoardSymmetry pl) = Some (res :: 's result, prog, pos)"
  shows "onmessage fuel rnd (sc :: 's scorer) ''solve'' pl
           = Some (map (\<lambda>(n, f). Progress n f) prog @ finish res)"
  using assms by (simp add: onmessage_def Let_def)

lemma onmessage_balanced:
  assumes "ok (preflight (p_W pl) (p_H pl) (set (p_holes pl)) (p_tileTypes pl))"
    and "p_balance pl = Some bal" and "\<not> noBalance bal"
    and "solveBalanced fuel rnd 0 sc (p_W pl) (p_H pl) (set (p_holes pl))
             (p_tileTypes pl) (p_uniqueByBoardSymmetry pl) bal (p_cap pl) = Some (v, prog, pos)"
  shows "onmessage fuel rnd sc ''solve'' pl
           = Some (map (\<lambda>(n, f). Progress n f) prog
                   @ (case v of Inl (Error m) \<Rightarrow> [ErrorMsg m] | Inr res \<Rightarrow> finish res))"
proof (cases v)
  case (Inl err)
  obtain m where "err = Error m" by (cases err)
  then show ?thesis using assms Inl by (simp add: onmessage_def Let_def)
next
  case (Inr res)
  then show ?thesis using assms by (simp add: onmessage_def Let_def)
qed

lemma onmessage_cases:
  assumes run: "onmessage fuel rnd (sc :: 's scorer) ''solve'' pl = Some msgs"
  obtains (failed) "\<not> ok (preflight (p_W pl) (p_H pl) (set (p_holes pl)) (p_tileTypes pl))"
      "msgs = [Infeasible (reasons (preflight (p_W pl) (p_H pl) (set (p_holes pl)) (p_tileTypes pl)))]"
    | (nobalance) "ok (preflight (p_W pl) (p_H pl) (set (p_holes pl)) (p_tileTypes pl))" "p_balance pl = None"
      "msgs = [ErrorMsg ''Cannot read properties of undefined (reading 'maxSolutionsToEvaluate')'']"
    | (first) bal res prog pos where "ok (preflight (p_W pl) (p_H pl) (set (p_holes pl)) (p_tileTypes pl))"
      "p_balance pl = Some bal" "noBalance bal"
      "solveFirst fuel rnd 0 (p_W pl) (p_H pl) (set (p_holes pl)) (p_tileTypes pl)
             (p_uniqueByBoardSymmetry pl) = Some (res :: 's result, prog, pos)"
      "msgs = map (\<lambda>(n, f). Progress n f) prog @ finish res"
    | (thrown) bal m prog pos where "ok (preflight (p_W pl) (p_H pl) (set (p_holes pl)) (p_tileTypes pl))"
      "p_balance pl = Some bal" "\<not> noBalance bal"
      "solveBalanced fuel rnd 0 sc (p_W pl) (p_H pl) (set (p_holes pl))
             (p_tileTypes pl) (p_uniqueByBoardSymmetry pl) bal (p_cap pl) = Some (Inl (Error m), prog, pos)"
      "msgs = map (\<lambda>(n, f). Progress n f) prog @ [ErrorMsg m]"
    | (balanced) bal res prog pos where "ok (preflight (p_W pl) (p_H pl) (set (p_holes pl)) (p_tileTypes pl))"
      "p_balance pl = Some bal" "\<not> noBalance bal"
      "solveBalanced fuel rnd 0 sc (p_W pl) (p_H pl) (set (p_holes pl))
             (p_tileTypes pl) (p_uniqueByBoardSymmetry pl) bal (p_cap pl) = Some (Inr res, prog, pos)"
      "msgs = map (\<lambda>(n, f). Progress n f) prog @ finish res"
proof (cases "ok (preflight (p_W pl) (p_H pl) (set (p_holes pl)) (p_tileTypes pl))")
  case False
  then have "msgs = [Infeasible (reasons (preflight (p_W pl) (p_H pl) (set (p_holes pl)) (p_tileTypes pl)))]"
    using run by (simp add: onmessage_def Let_def)
  then show ?thesis using False failed by blast
next
  case okpf: True
  show ?thesis
  proof (cases "p_balance pl")
    case None
    then have "msgs = [ErrorMsg ''Cannot read properties of undefined (reading 'maxSolutionsToEvaluate')'']"
      using run okpf by (simp add: onmessage_def Let_def)
    then show ?thesis using okpf None nobalance by blast
  next
    case (Some bal)
    show ?thesis
    proof (cases "noBalance bal")
      case True
      then obtain a where a: "(solveFirst fuel rnd 0 (p_W pl) (p_H pl) (set (p_holes pl)) (p_tileTypes pl)
             (p_uniqueByBoardSymmetry pl) :: ('s result \<times> (int \<times> int) list \<times> nat) option) = Some a"
        using run okpf Some by (auto simp: onmessage_def Let_def split: option.splits)
      obtain res prog pos where a2: "a = (res, prog, pos)" by (cases a)
      have "msgs = map (\<lambda>(n, f). Progress n f) prog @ finish res"
        using run onmessage_first [OF okpf Some True a [unfolded a2]] by simp
      then show ?thesis using okpf Some True a a2 first by blast
    next
      case False
      then obtain b where b: "solveBalanced fuel rnd 0 sc (p_W pl) (p_H pl) (set (p_holes pl))
             (p_tileTypes pl) (p_uniqueByBoardSymmetry pl) bal (p_cap pl) = Some b"
        using run okpf Some by (auto simp: onmessage_def Let_def split: option.splits)
      obtain v prog pos where b2: "b = (v, prog, pos)" by (cases b)
      note on = onmessage_balanced [OF okpf Some False b [unfolded b2]]
      show ?thesis
      proof (cases v)
        case (Inl err)
        obtain m where m: "err = Error m" by (cases err)
        have "msgs = map (\<lambda>(n, f). Progress n f) prog @ [ErrorMsg m]"
          using run on Inl m by simp
        then show ?thesis using okpf Some False b b2 Inl m thrown by blast
      next
        case (Inr res)
        have "msgs = map (\<lambda>(n, f). Progress n f) prog @ finish res"
          using run on Inr by simp
        then show ?thesis using okpf Some False b b2 Inr balanced by blast
      qed
    qed
  qed
qed

lemma onmessage_shape:
  assumes run: "onmessage fuel rnd sc ''solve'' pl = Some msgs"
  shows "\<exists>pre t. msgs = pre @ [t] \<and> terminal t \<and> (\<forall>m \<in> set pre. \<not> terminal m)"
  using run
proof (cases rule: onmessage_cases)
  case failed
  then have "msgs = [] @ [Infeasible (reasons (preflight (p_W pl) (p_H pl) (set (p_holes pl)) (p_tileTypes pl)))]"
    by simp
  then show ?thesis
    by (intro exI [of _ "[]"] exI [of _ "Infeasible (reasons (preflight (p_W pl) (p_H pl) (set (p_holes pl)) (p_tileTypes pl)))"]) simp
next
  case nobalance
  then have "msgs = [] @ [ErrorMsg ''Cannot read properties of undefined (reading 'maxSolutionsToEvaluate')'']"
    by simp
  then show ?thesis
    by (intro exI [of _ "[]"] exI [of _ "ErrorMsg ''Cannot read properties of undefined (reading 'maxSolutionsToEvaluate')''"]) simp
next
  case (first bal res prog pos)
  obtain t where t: "finish res = [t]" "terminal t" using finish_terminal by blast
  then show ?thesis using first(5) progress_not_terminal [of prog] by blast
next
  case (thrown bal m prog pos)
  have "terminal (ErrorMsg m :: 'a msg)" by simp
  then show ?thesis using thrown(5) progress_not_terminal [of prog] by blast
next
  case (balanced bal res prog pos)
  obtain t where t: "finish res = [t]" "terminal t" using finish_terminal by blast
  then show ?thesis using balanced(5) progress_not_terminal [of prog] by blast
qed

lemma onmessage_error:
  assumes run: "onmessage fuel rnd sc ''solve'' pl = Some msgs"
    and err: "ErrorMsg m \<in> set msgs"
    and nn: "nonnegCounts (p_tileTypes pl)" and bal: "p_balance pl \<noteq> None"
  shows "\<exists>bal r L. p_balance pl = Some bal \<and> \<not> noBalance bal
           \<and> enumerateTilings fuel rnd 0 (p_W pl) (p_H pl) (set (p_holes pl)) (p_tileTypes pl)
             (p_uniqueByBoardSymmetry pl) (capSolutionsOf (maxSolutionsToEvaluate bal) (p_cap pl))
             (Some (\<lambda>n f. if f mod 10 = 0 then [(n, f)] else [])) = Some (Inr r)
           \<and> L \<in> set (en_solutions r)
           \<and> balanceScore sc (p_W pl) (p_H pl) (p_tileTypes pl) L bal = Inl (Error m)"
  using run
proof (cases rule: onmessage_cases)
  case failed
  then show ?thesis using err by simp
next
  case nobalance
  then show ?thesis using bal by simp
next
  case (first bal res prog pos)
  obtain t where t: "finish res = [t]" "\<forall>m. t \<noteq> ErrorMsg m" using finish_terminal by blast
  then show ?thesis using first(5) err progress_no_error [of m prog] by auto
next
  case (thrown bal m' prog pos)
  have "m' = m" using thrown(5) err progress_no_error [of m prog] by auto
  moreover have "\<not> areaThrows (p_W pl) (p_H pl) (set (p_holes pl)) (p_tileTypes pl)"
    using preflight_ok_area [OF thrown(1) nn] .
  ultimately show ?thesis using solveBalanced_throws [OF thrown(4)] thrown(2,3) by blast
next
  case (balanced bal res prog pos)
  obtain t where t: "finish res = [t]" "\<forall>m. t \<noteq> ErrorMsg m" using finish_terminal by blast
  then show ?thesis using balanced(5) err progress_no_error [of m prog] by auto
qed

lemma onmessage_returns:
  assumes ne: "nonemptyBases (p_tileTypes pl)" and d: "distinctBases (p_tileTypes pl)"
    and fuel: "3 * length (boardCells (p_W pl) (p_H pl) (set (p_holes pl))) + 2 \<le> fuel"
  shows "onmessage fuel rnd (sc :: 's scorer) cmd pl \<noteq> None"
proof -
  have f1: "length (boardCells (p_W pl) (p_H pl) (set (p_holes pl))) + 1 \<le> fuel" using fuel by linarith
  have 1: "(solveFirst fuel rnd 0 (p_W pl) (p_H pl) (set (p_holes pl)) (p_tileTypes pl) u
              :: ('s result \<times> (int \<times> int) list \<times> nat) option) \<noteq> None" for u
    unfolding solveFirst_def by (rule solveFirst_returns [OF ne f1])
  have 2: "solveBalanced fuel rnd 0 sc (p_W pl) (p_H pl) (set (p_holes pl)) (p_tileTypes pl) u bal cap \<noteq> None"
    for u bal cap
    using enumerate_returns [OF ne d fuel, of rnd 0 u "capSolutionsOf (maxSolutionsToEvaluate bal) cap"
        "Some (\<lambda>n f. if f mod 10 = 0 then [(n, f)] else [])"]
    unfolding solveBalanced_def by (auto split: option.splits sum.splits prod.splits)
  show ?thesis
  proof (cases "cmd = ''solve''")
    case False
    then show ?thesis by (simp add: onmessage_def)
  next
    case solve: True
    let ?pf = "preflight (p_W pl) (p_H pl) (set (p_holes pl)) (p_tileTypes pl)"
    show ?thesis
    proof (cases "ok ?pf")
      case False
      then show ?thesis by (simp add: onmessage_def Let_def)
    next
      case okpf: True
      show ?thesis
      proof (cases "p_balance pl")
        case None
        then show ?thesis by (simp add: onmessage_def Let_def)
      next
        case (Some bal)
        show ?thesis
        proof (cases "noBalance bal")
          case True
          obtain a where a: "(solveFirst fuel rnd 0 (p_W pl) (p_H pl) (set (p_holes pl)) (p_tileTypes pl)
             (p_uniqueByBoardSymmetry pl) :: ('s result \<times> (int \<times> int) list \<times> nat) option) = Some a"
            using 1 by blast
          obtain res prog pos where a2: "a = (res, prog, pos)" by (cases a)
          show ?thesis using onmessage_first [OF okpf Some True a [unfolded a2]] solve by simp
        next
          case False
          obtain b where b: "solveBalanced fuel rnd 0 sc (p_W pl) (p_H pl) (set (p_holes pl))
             (p_tileTypes pl) (p_uniqueByBoardSymmetry pl) bal (p_cap pl) = Some b"
            using 2 by blast
          obtain v prog pos where b2: "b = (v, prog, pos)" by (cases b)
          show ?thesis using onmessage_balanced [OF okpf Some False b [unfolded b2]] solve by simp
        qed
      qed
    qed
  qed
qed

lemma onmessage_result_layout:
  assumes run: "onmessage fuel rnd (sc :: 's scorer) ''solve'' pl = Some msgs"
    and res: "Result n L s \<in> set msgs"
  shows "(\<exists>res prog pos. solveFirstExactCover fuel rnd 0 (p_W pl) (p_H pl) (set (p_holes pl)) (p_tileTypes pl)
                           (p_uniqueByBoardSymmetry pl) = Some (res :: 's result, prog, pos)
                         \<and> layout res = Some L)
       \<or> (\<exists>c r. enumerateTilings fuel rnd 0 (p_W pl) (p_H pl) (set (p_holes pl)) (p_tileTypes pl)
                    (p_uniqueByBoardSymmetry pl) c
                    (Some (\<lambda>n f. if f mod 10 = 0 then [(n, f)] else [])) = Some (Inr r)
                  \<and> L \<in> set (en_solutions r))"
proof -
  have fin: "Result n L s \<in> set (map (\<lambda>(n, f). Progress n f) prog @ finish r') \<Longrightarrow> layout r' = Some L"
    for r' :: "'s result" and prog
    by (cases "layout r'") (auto simp: finish_def)
  from run show ?thesis
  proof (cases rule: onmessage_cases)
    case failed
    then show ?thesis using res by simp
  next
    case nobalance
    then show ?thesis using res by simp
  next
    case (first bal r' prog pos)
    have "layout r' = Some L" using fin res first(5) by blast
    then show ?thesis using first(4) unfolding solveFirst_def by blast
  next
    case (thrown bal m prog pos)
    then show ?thesis using res by auto
  next
    case (balanced bal r' prog pos)
    have "layout r' = Some L" using fin res balanced(5) by blast
    from solveBalanced_layout [OF balanced(4) this] show ?thesis by blast
  qed
qed

section \<open>Exact cover\<close>

text \<open>
  C1: whenever a result is returned, the layout is an exact cover of the free set: every
  free cell of the board lies in exactly one placement, and no cell of a placement lies
  outside the free set. This holds for every layout in the list that \<open>enumerateTilings\<close>
  returns (for tiles whose base cells are distinct, as the data model requires), for the
  layout that \<open>solveFirstExactCover\<close> returns, and so for the layout of every \<open>result\<close>
  message of the handler, whatever the random draws and the fuel.
\<close>

theorem C1_returned_layouts_are_exact_covers:
  "(distinctBases tiles \<longrightarrow>
      (\<forall>r. enumerateTilings fuel rnd pos0 W H holes tiles u cap cb = Some (Inr r)
           \<longrightarrow> (\<forall>L \<in> set (en_solutions r). exactCover (boardCells W H holes) L)))
   \<and> (\<forall>res prog pos L.
        solveFirstExactCover fuel rnd pos0 W H holes tiles u = Some (res :: 's result, prog, pos)
        \<longrightarrow> layout res = Some L \<longrightarrow> exactCover (boardCells W H holes) L)
   \<and> (distinctBases (p_tileTypes pl) \<longrightarrow>
        (\<forall>msgs n L s. onmessage fuel rnd (sc :: 's scorer) ''solve'' pl = Some msgs
            \<longrightarrow> Result n L s \<in> set msgs
            \<longrightarrow> exactCover (boardCells (p_W pl) (p_H pl) (set (p_holes pl))) L))"
proof (intro conjI impI allI)
  fix r
  assume "distinctBases tiles"
    and "enumerateTilings fuel rnd pos0 W H holes tiles u cap cb = Some (Inr r)"
  then show "\<forall>L \<in> set (en_solutions r). exactCover (boardCells W H holes) L"
    using enumerate_solsOK by blast
next
  fix res :: "'s result" and prog pos L
  assume "solveFirstExactCover fuel rnd pos0 W H holes tiles u = Some (res, prog, pos)"
    and "layout res = Some L"
  then show "exactCover (boardCells W H holes) L" using solveFirst_sound by blast
next
  fix msgs n L and s :: "'s option"
  assume d: "distinctBases (p_tileTypes pl)"
    and run: "onmessage fuel rnd sc ''solve'' pl = Some msgs" and res: "Result n L s \<in> set msgs"
  from onmessage_result_layout [OF run res]
  show "exactCover (boardCells (p_W pl) (p_H pl) (set (p_holes pl))) L"
  proof
    assume "\<exists>res prog pos. solveFirstExactCover fuel rnd 0 (p_W pl) (p_H pl) (set (p_holes pl))
              (p_tileTypes pl) (p_uniqueByBoardSymmetry pl) = Some (res :: 's result, prog, pos)
            \<and> layout res = Some L"
    then show ?thesis using solveFirst_sound by blast
  next
    assume "\<exists>c r. enumerateTilings fuel rnd 0 (p_W pl) (p_H pl) (set (p_holes pl)) (p_tileTypes pl)
              (p_uniqueByBoardSymmetry pl) c (Some (\<lambda>n f. if f mod 10 = 0 then [(n, f)] else []))
              = Some (Inr r) \<and> L \<in> set (en_solutions r)"
    then show ?thesis using enumerate_solsOK [OF d] by blast
  qed
qed

lemma run_enumerate_2x2:
  "enumerateTilings 20 (\<lambda>_. 0) 0 2 2 {}
     [\<lparr>name = ''domino'', base = [(0, 0), (1, 0)], allowRot = None, allowReflect = None, count = Some 2\<rparr>]
     None 1000 None
   = Some (Inr \<lparr>en_solutions = [[\<lparr>ti = 0, cells = [(0, 0), (0, 1)]\<rparr>, \<lparr>ti = 0, cells = [(1, 0), (1, 1)]\<rparr>]],
                en_boardSet = set (boardCells 2 2 {}), en_posted = [], en_rpos = 1\<rparr>)"
  by code_simp

lemma run_solveFirst_2x2:
  "solveFirstExactCover 20 (\<lambda>_. 0) 0 2 2 {}
     [\<lparr>name = ''domino'', base = [(0, 0), (1, 0)], allowRot = None, allowReflect = None, count = Some 2\<rparr>]
     (Some True)
   = Some (\<lparr>found = 1,
            layout = Some [\<lparr>ti = 0, cells = [(0, 0), (0, 1)]\<rparr>, \<lparr>ti = 0, cells = [(1, 0), (1, 1)]\<rparr>],
            score = None :: unit option\<rparr>, [], 1)"
  by code_simp

lemma domino_wellformed:
  "distinctBases [\<lparr>name = ''domino'', base = [(0, 0), (1, 0)], allowRot = None, allowReflect = None, count = Some 2\<rparr>]"
  "nonemptyBases [\<lparr>name = ''domino'', base = [(0, 0), (1, 0)], allowRot = None, allowReflect = None, count = Some 2\<rparr>]"
  "nonnegCounts [\<lparr>name = ''domino'', base = [(0, 0), (1, 0)], allowRot = None, allowReflect = None, count = Some 2\<rparr>]"
  by (simp_all add: distinctBases_def nonemptyBases_def nonnegCounts_def)

theorem C1_returned_layouts_are_exact_covers_witness:
  "distinctBases [\<lparr>name = ''domino'', base = [(0, 0), (1, 0)], allowRot = None, allowReflect = None, count = Some 2\<rparr>]
   \<and> enumerateTilings 20 (\<lambda>_. 0) 0 2 2 {}
       [\<lparr>name = ''domino'', base = [(0, 0), (1, 0)], allowRot = None, allowReflect = None, count = Some 2\<rparr>]
       None 1000 None
     = Some (Inr \<lparr>en_solutions = [[\<lparr>ti = 0, cells = [(0, 0), (0, 1)]\<rparr>, \<lparr>ti = 0, cells = [(1, 0), (1, 1)]\<rparr>]],
                  en_boardSet = set (boardCells 2 2 {}), en_posted = [], en_rpos = 1\<rparr>)
   \<and> exactCover (boardCells 2 2 {}) [\<lparr>ti = 0, cells = [(0, 0), (0, 1)]\<rparr>, \<lparr>ti = 0, cells = [(1, 0), (1, 1)]\<rparr>]"
proof -
  let ?tiles = "[\<lparr>name = ''domino'', base = [(0, 0), (1, 0)], allowRot = None, allowReflect = None, count = Some 2\<rparr>]"
  let ?L = "[\<lparr>ti = 0, cells = [(0, 0), (0, 1)]\<rparr>, \<lparr>ti = 0, cells = [(1, 0), (1, 1)]\<rparr>]"
  let ?r = "\<lparr>en_solutions = [?L], en_boardSet = set (boardCells 2 2 {}), en_posted = [], en_rpos = 1\<rparr>"
  have "distinctBases ?tiles \<longrightarrow>
      (\<forall>r. enumerateTilings 20 (\<lambda>_. 0) 0 2 2 {} ?tiles None 1000 None = Some (Inr r)
           \<longrightarrow> (\<forall>L \<in> set (en_solutions r). exactCover (boardCells 2 2 {}) L))"
    using C1_returned_layouts_are_exact_covers [of ?tiles 20 "\<lambda>_. 0" 0 2 2 "{}" None 1000 None]
    by (rule conjunct1)
  then have "\<forall>L \<in> set (en_solutions ?r). exactCover (boardCells 2 2 {}) L"
    using domino_wellformed(1) run_enumerate_2x2 by blast
  then show ?thesis using domino_wellformed(1) run_enumerate_2x2 by simp
qed

section \<open>Totality of the enumeration\<close>

text \<open>
  C5 (as stated): \<open>enumerateTilings\<close> never throws, also when no exact cover exists. On
  the 2-by-2 board with a single domino in stock (count 1) no exact cover exists, and the
  capacity check at the head of the function throws.
\<close>

theorem C5_capacity_check_throws_counterexample:
  "enumerateTilings 20 (\<lambda>_. 0) 0 2 2 {}
     [\<lparr>name = ''domino'', base = [(0, 0), (1, 0)], allowRot = None, allowReflect = None, count = Some 1\<rparr>]
     None 1 None
   = Some (Inl (Error ''Not enough stone area to cover the patio.''))"
  by code_simp

text \<open>
  C5 (amended): for tiles with non-empty bases of distinct cells, \<open>enumerateTilings\<close>
  terminates (fuel of three units per free cell plus two is enough, whatever the random
  draws). It throws exactly when every tile count is finite and the total area
  \<open>sum of count * |base|\<close> is less than the number of free cells; otherwise it returns a
  solutions list, possibly empty: dead ends met during the search do not throw.
\<close>

theorem C5_enumeration_terminates:
  assumes "nonemptyBases tiles" and "distinctBases tiles"
    and "3 * length (boardCells W H holes) + 2 \<le> fuel"
  shows "(areaThrows W H holes tiles \<longrightarrow>
            enumerateTilings fuel rnd pos0 W H holes tiles u cap cb
              = Some (Inl (Error ''Not enough stone area to cover the patio.'')))
       \<and> (\<not> areaThrows W H holes tiles \<longrightarrow>
            (\<exists>r. enumerateTilings fuel rnd pos0 W H holes tiles u cap cb = Some (Inr r)))"
proof -
  have ret: "enumerateTilings fuel rnd pos0 W H holes tiles u cap cb \<noteq> None"
    by (rule enumerate_returns [OF assms])
  then obtain ps bc where
    pre: "precomputePlacements W H (set (boardCells W H holes)) tiles = Some (ps, bc)"
    unfolding enumerateTilings_unfold by (auto split: option.splits)
  show ?thesis
  proof (cases "areaThrows W H holes tiles")
    case True
    then show ?thesis unfolding enumerateTilings_unfold using pre by simp
  next
    case False
    then show ?thesis using ret pre unfolding enumerateTilings_unfold
      by (auto split: option.splits)
  qed
qed

lemma boardCells_2x2: "length (boardCells 2 2 {}) = 4"
  by code_simp

lemma no_throw_2x2:
  "\<not> areaThrows 2 2 {}
       [\<lparr>name = ''domino'', base = [(0, 0), (1, 0)], allowRot = None, allowReflect = None, count = Some 2\<rparr>]"
  by code_simp

theorem C5_enumeration_terminates_witness:
  "nonemptyBases [\<lparr>name = ''domino'', base = [(0, 0), (1, 0)], allowRot = None, allowReflect = None, count = Some 2\<rparr>]
   \<and> distinctBases [\<lparr>name = ''domino'', base = [(0, 0), (1, 0)], allowRot = None, allowReflect = None, count = Some 2\<rparr>]
   \<and> 3 * length (boardCells 2 2 {}) + 2 \<le> (20::nat)
   \<and> (\<exists>r. enumerateTilings 20 (\<lambda>_. 0) 0 2 2 {}
            [\<lparr>name = ''domino'', base = [(0, 0), (1, 0)], allowRot = None, allowReflect = None, count = Some 2\<rparr>]
            None 1000 None = Some (Inr r))"
proof -
  have fuel: "3 * length (boardCells 2 2 {}) + 2 \<le> (20::nat)" by (simp add: boardCells_2x2)
  show ?thesis
    using C5_enumeration_terminates [OF domino_wellformed(2) domino_wellformed(1) fuel, of "\<lambda>_. 0" 0 None 1000 None]
      no_throw_2x2 domino_wellformed(1,2) fuel
    by blast
qed

section \<open>Inventory\<close>

lemma withinStock_iff:
  "withinStock tiles L
   \<longleftrightarrow> (\<forall>t < length tiles. \<forall>lim. count (tiles ! t) = Some lim \<longrightarrow> int (typeCount L t) \<le> lim)"
  by (auto simp: withinStock_def list_all_iff split: option.splits)

text \<open>
  C6: whenever a result is returned, for each tile type with a finite count (a
  non-negative integer, as the data model requires) the number of placements of that type
  in the layout is at most the count. This holds for every layout that
  \<open>enumerateTilings\<close> returns and for the layout that \<open>solveFirstExactCover\<close> returns.
\<close>

theorem C6_placements_within_stock:
  assumes "nonnegCounts tiles"
  shows "(distinctBases tiles \<longrightarrow>
            (\<forall>r. enumerateTilings fuel rnd pos0 W H holes tiles u cap cb = Some (Inr r)
               \<longrightarrow> (\<forall>L \<in> set (en_solutions r). \<forall>t < length tiles. \<forall>lim.
                      count (tiles ! t) = Some lim \<longrightarrow> int (typeCount L t) \<le> lim)))
       \<and> (\<forall>res prog pos L.
            solveFirstExactCover fuel rnd pos0 W H holes tiles u = Some (res :: 's result, prog, pos)
            \<longrightarrow> layout res = Some L
            \<longrightarrow> (\<forall>t < length tiles. \<forall>lim. count (tiles ! t) = Some lim \<longrightarrow> int (typeCount L t) \<le> lim))"
proof (intro conjI impI allI ballI)
  fix r L t lim
  assume "distinctBases tiles"
    and "enumerateTilings fuel rnd pos0 W H holes tiles u cap cb = Some (Inr r)"
    and "L \<in> set (en_solutions r)" and "t < length tiles" and "count (tiles ! t) = Some lim"
  then show "int (typeCount L t) \<le> lim"
    using enumerate_solsOK assms withinStock_iff by blast
next
  fix res :: "'s result" and prog pos L t lim
  assume "solveFirstExactCover fuel rnd pos0 W H holes tiles u = Some (res, prog, pos)"
    and "layout res = Some L" and "t < length tiles" and "count (tiles ! t) = Some lim"
  then show "int (typeCount L t) \<le> lim"
    using solveFirst_sound assms withinStock_iff by blast
qed

theorem C6_placements_within_stock_witness:
  "nonnegCounts [\<lparr>name = ''domino'', base = [(0, 0), (1, 0)], allowRot = None, allowReflect = None, count = Some 2\<rparr>]
   \<and> solveFirstExactCover 20 (\<lambda>_. 0) 0 2 2 {}
       [\<lparr>name = ''domino'', base = [(0, 0), (1, 0)], allowRot = None, allowReflect = None, count = Some 2\<rparr>]
       (Some True)
     = Some (\<lparr>found = 1,
              layout = Some [\<lparr>ti = 0, cells = [(0, 0), (0, 1)]\<rparr>, \<lparr>ti = 0, cells = [(1, 0), (1, 1)]\<rparr>],
              score = None :: unit option\<rparr>, [], 1)
   \<and> int (typeCount [\<lparr>ti = 0, cells = [(0, 0), (0, 1)]\<rparr>, \<lparr>ti = 0, cells = [(1, 0), (1, 1)]\<rparr>] 0) \<le> 2"
proof -
  let ?tiles = "[\<lparr>name = ''domino'', base = [(0, 0), (1, 0)], allowRot = None, allowReflect = None, count = Some 2\<rparr>]"
  let ?L = "[\<lparr>ti = 0, cells = [(0, 0), (0, 1)]\<rparr>, \<lparr>ti = 0, cells = [(1, 0), (1, 1)]\<rparr>]"
  have "\<forall>res prog pos L.
            solveFirstExactCover 20 (\<lambda>_. 0) 0 2 2 {} ?tiles (Some True) = Some (res :: unit result, prog, pos)
            \<longrightarrow> layout res = Some L
            \<longrightarrow> (\<forall>t < length ?tiles. \<forall>lim. count (?tiles ! t) = Some lim \<longrightarrow> int (typeCount L t) \<le> lim)"
    using C6_placements_within_stock [OF domino_wellformed(3), of 20 "\<lambda>_. 0" 0 2 2 "{}" "Some True"]
    by (rule conjunct2)
  then have "\<forall>t < length ?tiles. \<forall>lim. count (?tiles ! t) = Some lim \<longrightarrow> int (typeCount ?L t) \<le> lim"
    using run_solveFirst_2x2 by (metis result.select_convs(2))
  then have "int (typeCount ?L 0) \<le> 2" by simp
  then show ?thesis using domino_wellformed(3) run_solveFirst_2x2 by simp
qed

section \<open>First-only mode and the symmetry flag\<close>

text \<open>
  C8: in first-only mode, for a fixed stream of random draws, the result of \<open>solveFirst\<close>
  (found, layout and score, and also the progress events and the number of draws) is the
  same whatever the value of \<open>uniqueByBoardSymmetry\<close>.
\<close>

theorem C8_solveFirst_ignores_symmetry_flag:
  "solveFirst fuel rnd pos0 W H holes tiles u1 = solveFirst fuel rnd pos0 W H holes tiles u2"
  by (simp add: solveFirst_def solveFirstExactCover_unfold)

theorem C8_solveFirst_ignores_symmetry_flag_witness:
  "solveFirst 20 (\<lambda>_. 0) 0 2 2 {}
     [\<lparr>name = ''domino'', base = [(0, 0), (1, 0)], allowRot = None, allowReflect = None, count = Some 2\<rparr>]
     (Some False)
   = Some (\<lparr>found = 1,
            layout = Some [\<lparr>ti = 0, cells = [(0, 0), (0, 1)]\<rparr>, \<lparr>ti = 0, cells = [(1, 0), (1, 1)]\<rparr>],
            score = None :: unit option\<rparr>, [], 1)"
proof -
  have "solveFirst 20 (\<lambda>_. 0) 0 2 2 {}
          [\<lparr>name = ''domino'', base = [(0, 0), (1, 0)], allowRot = None, allowReflect = None, count = Some 2\<rparr>]
          (Some False)
        = (solveFirst 20 (\<lambda>_. 0) 0 2 2 {}
          [\<lparr>name = ''domino'', base = [(0, 0), (1, 0)], allowRot = None, allowReflect = None, count = Some 2\<rparr>]
          (Some True) :: (unit result \<times> (int \<times> int) list \<times> nat) option)"
    by (rule C8_solveFirst_ignores_symmetry_flag)
  then show ?thesis using run_solveFirst_2x2 by (simp add: solveFirst_def)
qed

section \<open>Terminal messages of the handler\<close>

lemma one_terminal:
  assumes "msgs = pre @ [t]" and "terminal t" and "\<forall>m \<in> set pre. \<not> terminal m"
  shows "length (filter terminal msgs) = 1" and "terminal (last msgs)"
proof -
  have "filter terminal pre = []" using assms(3) by (simp add: filter_empty_conv)
  then show "length (filter terminal msgs) = 1" using assms(1,2) by simp
  show "terminal (last msgs)" using assms(1,2) by simp
qed

text \<open>
  C7: for every solve request that the handler finishes, exactly one terminal message
  (infeasible, result or error) is posted, and it is the last message; with non-empty bases
  of distinct cells the handler does finish (fuel of three units per free cell plus two is
  enough, whatever the random draws and the scorer). Ordinary infeasibility is reported by
  infeasible: a failed pre-flight posts infeasible with its reasons and nothing else; after
  a passed pre-flight, a search that ends without a layout (in first-only mode \<open>solveFirst\<close>
  returns no layout, in balanced mode \<open>enumerateTilings\<close> returns an empty list) posts its
  progress messages and then infeasible with the reason that no exact layout was found.
  For a payload of the documented shape (non-negative counts, a balance configuration
  present) an error is posted only in balanced mode, with the message of an exception that
  \<open>balanceScore\<close> throws on a layout that the enumeration returned; so never for a request
  that has no layout.
\<close>

theorem C7_exactly_one_terminal_message:
  "(\<forall>msgs. onmessage fuel rnd (sc :: 's scorer) ''solve'' pl = Some msgs \<longrightarrow>
       length (filter terminal msgs) = 1 \<and> terminal (last msgs))
   \<and> (nonemptyBases (p_tileTypes pl) \<longrightarrow> distinctBases (p_tileTypes pl) \<longrightarrow>
        3 * length (boardCells (p_W pl) (p_H pl) (set (p_holes pl))) + 2 \<le> fuel \<longrightarrow>
        (\<exists>msgs. onmessage fuel rnd sc ''solve'' pl = Some msgs))
   \<and> (\<not> ok (preflight (p_W pl) (p_H pl) (set (p_holes pl)) (p_tileTypes pl)) \<longrightarrow>
        onmessage fuel rnd sc ''solve'' pl
          = Some [Infeasible (reasons (preflight (p_W pl) (p_H pl) (set (p_holes pl)) (p_tileTypes pl)))])
   \<and> (\<forall>bal res prog pos.
        ok (preflight (p_W pl) (p_H pl) (set (p_holes pl)) (p_tileTypes pl)) \<longrightarrow>
        p_balance pl = Some bal \<longrightarrow> noBalance bal \<longrightarrow>
        solveFirst fuel rnd 0 (p_W pl) (p_H pl) (set (p_holes pl)) (p_tileTypes pl)
          (p_uniqueByBoardSymmetry pl) = Some (res :: 's result, prog, pos) \<longrightarrow>
        layout res = None \<longrightarrow>
        onmessage fuel rnd sc ''solve'' pl
          = Some (map (\<lambda>(n, f). Progress n f) prog @ [Infeasible [NoLayoutFound]]))
   \<and> (\<forall>bal r.
        ok (preflight (p_W pl) (p_H pl) (set (p_holes pl)) (p_tileTypes pl)) \<longrightarrow>
        p_balance pl = Some bal \<longrightarrow> \<not> noBalance bal \<longrightarrow>
        enumerateTilings fuel rnd 0 (p_W pl) (p_H pl) (set (p_holes pl)) (p_tileTypes pl)
          (p_uniqueByBoardSymmetry pl) (capSolutionsOf (maxSolutionsToEvaluate bal) (p_cap pl))
          (Some (\<lambda>n f. if f mod 10 = 0 then [(n, f)] else [])) = Some (Inr r) \<longrightarrow>
        en_solutions r = [] \<longrightarrow>
        onmessage fuel rnd sc ''solve'' pl
          = Some (map (\<lambda>(n, f). Progress n f) (en_posted r) @ [Infeasible [NoLayoutFound]]))
   \<and> (nonnegCounts (p_tileTypes pl) \<longrightarrow> p_balance pl \<noteq> None \<longrightarrow>
        (\<forall>msgs m. onmessage fuel rnd sc ''solve'' pl = Some msgs \<longrightarrow> ErrorMsg m \<in> set msgs \<longrightarrow>
           (\<exists>bal r L. p_balance pl = Some bal \<and> \<not> noBalance bal
              \<and> enumerateTilings fuel rnd 0 (p_W pl) (p_H pl) (set (p_holes pl)) (p_tileTypes pl)
                   (p_uniqueByBoardSymmetry pl) (capSolutionsOf (maxSolutionsToEvaluate bal) (p_cap pl))
                   (Some (\<lambda>n f. if f mod 10 = 0 then [(n, f)] else [])) = Some (Inr r)
              \<and> L \<in> set (en_solutions r)
              \<and> balanceScore sc (p_W pl) (p_H pl) (p_tileTypes pl) L bal = Inl (Error m))))"
proof (intro conjI allI impI)
  fix msgs
  assume run: "onmessage fuel rnd sc ''solve'' pl = Some msgs"
  from onmessage_shape [OF run] obtain pre t where
    m: "msgs = pre @ [t]" and t: "terminal t" and pre: "\<forall>m \<in> set pre. \<not> terminal m"
    by blast
  show "length (filter terminal msgs) = 1" by (rule one_terminal(1) [OF m t pre])
  show "terminal (last msgs)" by (rule one_terminal(2) [OF m t pre])
next
  assume "nonemptyBases (p_tileTypes pl)" and "distinctBases (p_tileTypes pl)"
    and "3 * length (boardCells (p_W pl) (p_H pl) (set (p_holes pl))) + 2 \<le> fuel"
  then have "onmessage fuel rnd sc ''solve'' pl \<noteq> None" by (rule onmessage_returns)
  then show "\<exists>msgs. onmessage fuel rnd sc ''solve'' pl = Some msgs" by blast
next
  assume "\<not> ok (preflight (p_W pl) (p_H pl) (set (p_holes pl)) (p_tileTypes pl))"
  then show "onmessage fuel rnd sc ''solve'' pl
          = Some [Infeasible (reasons (preflight (p_W pl) (p_H pl) (set (p_holes pl)) (p_tileTypes pl)))]"
    by (simp add: onmessage_def Let_def)
next
  fix bal prog pos and res :: "'s result"
  assume okpf: "ok (preflight (p_W pl) (p_H pl) (set (p_holes pl)) (p_tileTypes pl))"
    and bal: "p_balance pl = Some bal" "noBalance bal"
    and sf: "solveFirst fuel rnd 0 (p_W pl) (p_H pl) (set (p_holes pl)) (p_tileTypes pl)
          (p_uniqueByBoardSymmetry pl) = Some (res, prog, pos)"
    and none: "layout res = None"
  show "onmessage fuel rnd sc ''solve'' pl
          = Some (map (\<lambda>(n, f). Progress n f) prog @ [Infeasible [NoLayoutFound]])"
    using onmessage_first [OF okpf bal sf] finish_none [OF none] by simp
next
  fix bal r
  assume okpf: "ok (preflight (p_W pl) (p_H pl) (set (p_holes pl)) (p_tileTypes pl))"
    and bal: "p_balance pl = Some bal" "\<not> noBalance bal"
    and en: "enumerateTilings fuel rnd 0 (p_W pl) (p_H pl) (set (p_holes pl)) (p_tileTypes pl)
          (p_uniqueByBoardSymmetry pl) (capSolutionsOf (maxSolutionsToEvaluate bal) (p_cap pl))
          (Some (\<lambda>n f. if f mod 10 = 0 then [(n, f)] else [])) = Some (Inr r)"
    and none: "en_solutions r = []"
  show "onmessage fuel rnd sc ''solve'' pl
          = Some (map (\<lambda>(n, f). Progress n f) (en_posted r) @ [Infeasible [NoLayoutFound]])"
    using onmessage_balanced [OF okpf bal solveBalanced_none_found [OF en none], of sc]
    by (simp add: finish_def)
next
  fix msgs m
  assume "nonnegCounts (p_tileTypes pl)" and "p_balance pl \<noteq> None"
    and "onmessage fuel rnd sc ''solve'' pl = Some msgs" and "ErrorMsg m \<in> set msgs"
  then show "\<exists>bal r L. p_balance pl = Some bal \<and> \<not> noBalance bal
              \<and> enumerateTilings fuel rnd 0 (p_W pl) (p_H pl) (set (p_holes pl)) (p_tileTypes pl)
                   (p_uniqueByBoardSymmetry pl) (capSolutionsOf (maxSolutionsToEvaluate bal) (p_cap pl))
                   (Some (\<lambda>n f. if f mod 10 = 0 then [(n, f)] else [])) = Some (Inr r)
              \<and> L \<in> set (en_solutions r)
              \<and> balanceScore sc (p_W pl) (p_H pl) (p_tileTypes pl) L bal = Inl (Error m)"
    using onmessage_error by blast
qed

lemma run_preflight_3x1:
  "ok (preflight 3 1 {}
     [\<lparr>name = ''ell'', base = [(0, 0), (1, 0), (0, 1)], allowRot = Some True, allowReflect = Some True, count = Some 1\<rparr>])"
  by code_simp

lemma run_solveFirst_3x1:
  "solveFirst 11 (\<lambda>_. 0) 0 3 1 {}
     [\<lparr>name = ''ell'', base = [(0, 0), (1, 0), (0, 1)], allowRot = Some True, allowReflect = Some True, count = Some 1\<rparr>]
     (Some True)
   = Some (\<lparr>found = 0, layout = None, score = None :: unit option\<rparr>, [], 0)"
  by code_simp

lemma run_enumerate_3x1:
  "enumerateTilings 11 (\<lambda>_. 0) 0 3 1 {}
     [\<lparr>name = ''ell'', base = [(0, 0), (1, 0), (0, 1)], allowRot = Some True, allowReflect = Some True, count = Some 1\<rparr>]
     (Some True) 1000 (Some (\<lambda>n f. if f mod 10 = 0 then [(n, f)] else []))
   = Some (Inr \<lparr>en_solutions = [], en_boardSet = set (boardCells 3 1 {}), en_posted = [], en_rpos = 0\<rparr>)"
  by code_simp

lemma run_onmessage_no_weights:
  "onmessage 20 (\<lambda>_. 0) \<lparr>scoreValue = (\<lambda>W H ts L cfg. ()), fless = (\<lambda>a b. True), finfinity = ()\<rparr> ''solve''
     \<lparr>p_W = 2, p_H = 2, p_holes = [],
      p_tileTypes = [\<lparr>name = ''domino'', base = [(0, 0), (1, 0)], allowRot = None, allowReflect = None, count = Some 2\<rparr>],
      p_uniqueByBoardSymmetry = Some True,
      p_balance = Some \<lparr>noBalance = False, maxSolutionsToEvaluate = None, hasWeights = False\<rparr>, p_cap = None\<rparr>
   = Some [ErrorMsg ''Cannot read properties of undefined (reading 'tileCountVariance')'']"
  by code_simp

theorem C7_exactly_one_terminal_message_witness:
  "onmessage 11 (\<lambda>_. 0) \<lparr>scoreValue = (\<lambda>W H ts L cfg. ()), fless = (\<lambda>a b. True), finfinity = ()\<rparr> ''solve''
     \<lparr>p_W = 3, p_H = 1, p_holes = [],
      p_tileTypes = [\<lparr>name = ''ell'', base = [(0, 0), (1, 0), (0, 1)], allowRot = Some True,
                      allowReflect = Some True, count = Some 1\<rparr>],
      p_uniqueByBoardSymmetry = Some True,
      p_balance = Some \<lparr>noBalance = True, maxSolutionsToEvaluate = None, hasWeights = True\<rparr>, p_cap = None\<rparr>
   = Some [Infeasible [NoLayoutFound]]
   \<and> onmessage 11 (\<lambda>_. 0) \<lparr>scoreValue = (\<lambda>W H ts L cfg. ()), fless = (\<lambda>a b. True), finfinity = ()\<rparr> ''solve''
     \<lparr>p_W = 3, p_H = 1, p_holes = [],
      p_tileTypes = [\<lparr>name = ''ell'', base = [(0, 0), (1, 0), (0, 1)], allowRot = Some True,
                      allowReflect = Some True, count = Some 1\<rparr>],
      p_uniqueByBoardSymmetry = Some True,
      p_balance = Some \<lparr>noBalance = False, maxSolutionsToEvaluate = None, hasWeights = True\<rparr>, p_cap = None\<rparr>
   = Some [Infeasible [NoLayoutFound]]
   \<and> length (filter terminal [Infeasible [NoLayoutFound] :: unit msg]) = 1
   \<and> (\<exists>L. balanceScore \<lparr>scoreValue = (\<lambda>W H ts L cfg. ()), fless = (\<lambda>a b. True), finfinity = ()\<rparr> 2 2
            [\<lparr>name = ''domino'', base = [(0, 0), (1, 0)], allowRot = None, allowReflect = None, count = Some 2\<rparr>]
            L \<lparr>noBalance = False, maxSolutionsToEvaluate = None, hasWeights = False\<rparr>
          = Inl (Error ''Cannot read properties of undefined (reading 'tileCountVariance')''))"
proof -
  let ?sc = "\<lparr>scoreValue = (\<lambda>W H ts L cfg. ()), fless = (\<lambda>a b. True), finfinity = ()\<rparr> :: unit scorer"
  let ?ell = "[\<lparr>name = ''ell'', base = [(0, 0), (1, 0), (0, 1)], allowRot = Some True,
                 allowReflect = Some True, count = Some 1\<rparr>]"
  let ?dom = "[\<lparr>name = ''domino'', base = [(0, 0), (1, 0)], allowRot = None, allowReflect = None, count = Some 2\<rparr>]"
  let ?fst = "\<lparr>noBalance = True, maxSolutionsToEvaluate = None, hasWeights = True\<rparr>"
  let ?bal = "\<lparr>noBalance = False, maxSolutionsToEvaluate = None, hasWeights = True\<rparr>"
  let ?now = "\<lparr>noBalance = False, maxSolutionsToEvaluate = None, hasWeights = False\<rparr>"
  let ?pa = "\<lparr>p_W = 3, p_H = 1, p_holes = [], p_tileTypes = ?ell, p_uniqueByBoardSymmetry = Some True,
              p_balance = Some ?fst, p_cap = None\<rparr>"
  let ?pb = "\<lparr>p_W = 3, p_H = 1, p_holes = [], p_tileTypes = ?ell, p_uniqueByBoardSymmetry = Some True,
              p_balance = Some ?bal, p_cap = None\<rparr>"
  let ?pc = "\<lparr>p_W = 2, p_H = 2, p_holes = [], p_tileTypes = ?dom, p_uniqueByBoardSymmetry = Some True,
              p_balance = Some ?now, p_cap = None\<rparr>"
  note a = C7_exactly_one_terminal_message [of 11 "\<lambda>_. 0" ?sc ?pa]
  note b = C7_exactly_one_terminal_message [of 11 "\<lambda>_. 0" ?sc ?pb]
  note c = C7_exactly_one_terminal_message [of 20 "\<lambda>_. 0" ?sc ?pc]
  have a4: "onmessage 11 (\<lambda>_. 0) ?sc ''solve'' ?pa = Some [Infeasible [NoLayoutFound]]"
    using a [THEN conjunct2, THEN conjunct2, THEN conjunct2, THEN conjunct1]
      run_preflight_3x1 run_solveFirst_3x1 by simp
  have a1: "length (filter terminal [Infeasible [NoLayoutFound] :: unit msg]) = 1"
    using a [THEN conjunct1] a4 by simp
  have b5: "onmessage 11 (\<lambda>_. 0) ?sc ''solve'' ?pb = Some [Infeasible [NoLayoutFound]]"
    using b [THEN conjunct2, THEN conjunct2, THEN conjunct2, THEN conjunct2, THEN conjunct1]
      run_preflight_3x1 run_enumerate_3x1 by (simp add: capSolutionsOf_def)
  have c6: "\<exists>bal r L. p_balance ?pc = Some bal \<and> \<not> noBalance bal
              \<and> enumerateTilings 20 (\<lambda>_. 0) 0 (p_W ?pc) (p_H ?pc) (set (p_holes ?pc)) (p_tileTypes ?pc)
                   (p_uniqueByBoardSymmetry ?pc) (capSolutionsOf (maxSolutionsToEvaluate bal) (p_cap ?pc))
                   (Some (\<lambda>n f. if f mod 10 = 0 then [(n, f)] else [])) = Some (Inr r)
              \<and> L \<in> set (en_solutions r)
              \<and> balanceScore ?sc (p_W ?pc) (p_H ?pc) (p_tileTypes ?pc) L bal
                  = Inl (Error ''Cannot read properties of undefined (reading 'tileCountVariance')'')"
    using c [THEN conjunct2, THEN conjunct2, THEN conjunct2, THEN conjunct2, THEN conjunct2]
      domino_wellformed(3) run_onmessage_no_weights by simp
  then have c6': "\<exists>L. balanceScore ?sc 2 2 ?dom L ?now
                  = Inl (Error ''Cannot read properties of undefined (reading 'tileCountVariance')'')"
    by auto
  show ?thesis using a4 a1 b5 c6' by blast
qed

section \<open>Symmetric duplicates\<close>

lemma sameIndex_fields:
  assumes "sameIndex e e'"
  shows "e_placements e' = e_placements e" "e_tiles e' = e_tiles e" "e_allCells e' = e_allCells e"
    "e_totalCells e' = e_totalCells e" "e_cap e' = e_cap e" "e_rnd e' = e_rnd e"
    "e_W e' = e_W e" "e_H e' = e_H e" "e_unique e' = e_unique e" "e_boardSet e' = e_boardSet e"
    "e_progressCb e' = e_progressCb e"
proof -
  have e': "e' = e\<lparr>e_byCell := e_byCell e'\<rparr>" using assms by (simp add: sameIndex_def)
  show "e_placements e' = e_placements e" by (subst e') simp
  show "e_tiles e' = e_tiles e" by (subst e') simp
  show "e_allCells e' = e_allCells e" by (subst e') simp
  show "e_totalCells e' = e_totalCells e" by (subst e') simp
  show "e_cap e' = e_cap e" by (subst e') simp
  show "e_rnd e' = e_rnd e" by (subst e') simp
  show "e_W e' = e_W e" by (subst e') simp
  show "e_H e' = e_H e" by (subst e') simp
  show "e_unique e' = e_unique e" by (subst e') simp
  show "e_boardSet e' = e_boardSet e" by (subst e') simp
  show "e_progressCb e' = e_progressCb e" by (subst e') simp
qed

lemma sameIndex_place: "sameIndex e e' \<Longrightarrow> place e' i st = place e i st"
  by (simp add: place_def sameIndex_fields)

lemma sameIndex_unplace: "sameIndex e e' \<Longrightarrow> unplace e' i st = unplace e i st"
  by (simp add: unplace_def sameIndex_fields)

lemma sameIndex_tick: "sameIndex e e' \<Longrightarrow> tick e' st = tick e st"
  by (simp add: tick_def Let_def sameIndex_fields)

lemma sameIndex_unwind: "sameIndex e e' \<Longrightarrow> unwind e' tr st = unwind e tr st"
  by (induction tr arbitrary: st) (simp_all add: sameIndex_unplace)

lemma sameIndex_record: "sameIndex e e' \<Longrightarrow> record_solution e' st = record_solution e st"
  by (simp add: record_solution_def sameIndex_fields)

lemma sameIndex_valid:
  "sameIndex e e' \<Longrightarrow> k \<in> set (e_allCells e) \<Longrightarrow> validPidsForCell e' st k = validPidsForCell e st k"
  by (simp add: validPidsForCell_def sameIndex_fields) (simp add: sameIndex_def)

lemma sameIndex_chooseLoop:
  "sameIndex e e' \<Longrightarrow> set ks \<subseteq> set (e_allCells e)
   \<Longrightarrow> chooseLoop e' st ks bc bp bl = chooseLoop e st ks bc bp bl"
proof (induction ks arbitrary: bc bp bl)
  case Nil
  then show ?case by simp
next
  case (Cons k ks)
  have k: "validPidsForCell e' st k = validPidsForCell e st k"
    using sameIndex_valid [OF Cons.prems(1)] Cons.prems(2) by simp
  have ks: "set ks \<subseteq> set (e_allCells e)" using Cons.prems(2) by simp
  show ?case using Cons.IH [OF Cons.prems(1) ks] k by (simp add: Let_def)
qed

lemma sameIndex_choose: "sameIndex e e' \<Longrightarrow> chooseCellAndPids e' st = chooseCellAndPids e st"
  using sameIndex_chooseLoop [of e e' "e_allCells e"]
  by (simp add: chooseCellAndPids_def sameIndex_fields)

lemma sameIndex_search:
  assumes s: "sameIndex e e'"
  shows "(\<forall>st. rec e' n st = rec e n st)
       \<and> (\<forall>tr st. loop e' n tr st = loop e n tr st)
       \<and> (\<forall>tr pids st. branch e' n tr pids st = branch e n tr pids st)"
proof (induction n)
  case 0
  have "branch e' 0 tr pids st = branch e 0 tr pids st" for tr pids st
    by (cases pids) (simp_all add: sameIndex_unwind [OF s])
  then show ?case by simp
next
  case (Suc n)
  have r: "rec e' (Suc n) st = rec e (Suc n) st" for st
    using Suc by (simp add: sameIndex_fields [OF s])
  have l: "loop e' (Suc n) tr st = loop e (Suc n) tr st" for tr st
    using Suc
    by (simp add: sameIndex_fields [OF s] sameIndex_choose [OF s] sameIndex_unwind [OF s]
        sameIndex_record [OF s] sameIndex_tick [OF s] sameIndex_place [OF s]
        split: prod.splits)
  have b: "branch e' (Suc n) tr pids st = branch e (Suc n) tr pids st" for tr pids st
  proof (induction pids arbitrary: st)
    case Nil
    then show ?case by (simp add: sameIndex_unwind [OF s])
  next
    case (Cons i pids)
    show ?case
      using Suc Cons.IH
      by (simp add: sameIndex_fields [OF s] sameIndex_unwind [OF s] sameIndex_tick [OF s]
          sameIndex_place [OF s] sameIndex_unplace [OF s] split: option.splits)
  qed
  from r l b show ?case by blast
qed

lemma board3: "boardCells 3 2 {} = [(0, 0), (1, 0), (2, 0), (0, 1), (1, 1), (2, 1)]"
  by code_simp

lemma env3_fields:
  "e_W env3 = 3" "e_H env3 = 2" "e_tiles env3 = tiles3" "e_unique env3 = True" "e_cap env3 = 1000"
  "e_progressCb env3 = None" "e_rnd env3 = (\<lambda>_. 0)" "e_placements env3 = placements3"
  "e_allCells env3 = [(0, 0), (1, 0), (2, 0), (0, 1), (1, 1), (2, 1)]" "e_totalCells env3 = 6"
  "e_boardSet env3 = set (boardCells 3 2 {})"
  by (simp_all add: env3_def envOf_def board3)

lemma env3_index:
  "e_byCell env3 (0, 0) = Some [0, 6, 10]" "e_byCell env3 (1, 0) = Some [1, 6, 7, 10]"
  "e_byCell env3 (2, 0) = Some [2, 7, 10]" "e_byCell env3 (0, 1) = Some [3, 8, 11]"
  "e_byCell env3 (1, 1) = Some [4, 8, 9, 11]" "e_byCell env3 (2, 1) = Some [5, 9, 11]"
  by (simp_all add: env3_def envOf_def index3_def)

lemma placements3_nth:
  "placements3 ! 0 = \<lparr>ti = 0, cells = [(0, 0)]\<rparr>" "placements3 ! 1 = \<lparr>ti = 0, cells = [(1, 0)]\<rparr>"
  "placements3 ! 2 = \<lparr>ti = 0, cells = [(2, 0)]\<rparr>" "placements3 ! 3 = \<lparr>ti = 0, cells = [(0, 1)]\<rparr>"
  "placements3 ! 4 = \<lparr>ti = 0, cells = [(1, 1)]\<rparr>" "placements3 ! 5 = \<lparr>ti = 0, cells = [(2, 1)]\<rparr>"
  "placements3 ! 6 = \<lparr>ti = 1, cells = [(0, 0), (1, 0)]\<rparr>"
  "placements3 ! 7 = \<lparr>ti = 1, cells = [(1, 0), (2, 0)]\<rparr>"
  "placements3 ! 8 = \<lparr>ti = 1, cells = [(0, 1), (1, 1)]\<rparr>"
  "placements3 ! 9 = \<lparr>ti = 1, cells = [(1, 1), (2, 1)]\<rparr>"
  "placements3 ! 10 = \<lparr>ti = 2, cells = [(0, 0), (1, 0), (2, 0)]\<rparr>"
  "placements3 ! 11 = \<lparr>ti = 2, cells = [(0, 1), (1, 1), (2, 1)]\<rparr>"
  by (simp_all add: placements3_def)

lemma tiles3_count: "count (tiles3 ! 0) = Some 1" "count (tiles3 ! 1) = Some 1" "count (tiles3 ! 2) = Some 1"
  "count (tiles3 ! Suc 0) = Some 1"
  by (simp_all add: tiles3_def)

lemma rec_numeral:
  "rec e (numeral k) st =
     (if int (length (solutions st)) \<ge> e_cap e then Some st else loop e (pred_numeral k) [] st)"
  by (simp add: numeral_eq_Suc)

lemma loop_numeral:
  "loop e (numeral k) trail st =
     (if coveredCount st = int (e_totalCells e)
      then Some (unwind e trail (record_solution e st))
      else (case chooseCellAndPids e st of
              (cellK, pids) \<Rightarrow>
                if length pids = 0 then Some (unwind e trail st)
                else if length pids = 1
                  then loop e (pred_numeral k) (pids ! 0 # trail) (tick e (place e (pids ! 0) st))
                  else (case shuffle (e_rnd e) pids (rpos st) of
                          (pids', pos') \<Rightarrow> branch e (pred_numeral k) trail pids' (st\<lparr>rpos := pos'\<rparr>))))"
  by (simp add: numeral_eq_Suc)

lemma branch_numeral:
  "branch e (numeral k) trail (q # qs) st =
     (case rec e (pred_numeral k) (tick e (place e q st)) of
        None \<Rightarrow> None
      | Some st' \<Rightarrow>
          if int (length (solutions st')) \<ge> e_cap e then Some (unwind e trail st')
          else branch e (numeral k) trail qs (unplace e q st'))"
proof -
  have k: "numeral k = Suc (pred_numeral k)"
    by (rule numeral_eq_Suc)
  show ?thesis
    unfolding k by simp
qed

lemma st0_3:
  "st0Of tiles3 0 = \<lparr>covered = {}, usedCounts = [0, 0, 0], usedPlacements = [], seen = {},
     solutions = [], coveredCount = 0, nodes = 0, rpos = 0, posted = []\<rparr>"
  by (simp add: st0Of_def tiles3_def)

lemma key3_1:
  "canonicalKey [\<lparr>ti = Suc 0, cells = [(0, 0), (1, 0)]\<rparr>, \<lparr>ti = 0, cells = [(2, 0)]\<rparr>,
                 \<lparr>ti = 2, cells = [(0, 1), (1, 1), (2, 1)]\<rparr>] 3 2 tiles3 True
     (Some (set (boardCells 3 2 {}))) = Some ''0,0;1,0;2,0|0,1;1,1|2,1''"
  by code_simp

lemma key3_2:
  "canonicalKey [\<lparr>ti = 2, cells = [(0, 0), (1, 0), (2, 0)]\<rparr>, \<lparr>ti = Suc 0, cells = [(0, 1), (1, 1)]\<rparr>,
                 \<lparr>ti = 0, cells = [(2, 1)]\<rparr>] 3 2 tiles3 True
     (Some (set (boardCells 3 2 {}))) = Some ''0,0;1,0;2,0|0,1;1,1|2,1''"
  by code_simp

lemma key3_3:
  "canonicalKey [\<lparr>ti = 2, cells = [(0, 0), (1, 0), (2, 0)]\<rparr>, \<lparr>ti = 0, cells = [(0, 1)]\<rparr>,
                 \<lparr>ti = Suc 0, cells = [(1, 1), (2, 1)]\<rparr>] 3 2 tiles3 True
     (Some (set (boardCells 3 2 {}))) = Some ''0,0;1,0;2,0|0,1;1,1|2,1''"
  by code_simp

lemma key3_4:
  "canonicalKey [\<lparr>ti = 0, cells = [(0, 0)]\<rparr>, \<lparr>ti = Suc 0, cells = [(1, 0), (2, 0)]\<rparr>,
                 \<lparr>ti = 2, cells = [(0, 1), (1, 1), (2, 1)]\<rparr>] 3 2 tiles3 True
     (Some (set (boardCells 3 2 {}))) = Some ''0,0;1,0;2,0|0,1|1,1;2,1''"
  by code_simp

lemmas search3 = rec_numeral loop_numeral branch_numeral env3_fields env3_index placements3_nth
  tiles3_count validPidsForCell_def stockLeft_def st0_3 Let_def chooseCellAndPids_def shuffle_def
  place_def unplace_def tick_def record_solution_def insert_Diff_if key3_1 key3_2 key3_3 key3_4

lemma search3_run:
  "rec env3 20 (st0Of tiles3 0) =
     Some \<lparr>covered = {}, usedCounts = [0, 0, 0], usedPlacements = [],
       seen = {Some ''0,0;1,0;2,0|0,1|1,1;2,1'', Some ''0,0;1,0;2,0|0,1;1,1|2,1''},
       solutions =
         [[\<lparr>ti = 1, cells = [(0, 0), (1, 0)]\<rparr>, \<lparr>ti = 0, cells = [(2, 0)]\<rparr>,
           \<lparr>ti = 2, cells = [(0, 1), (1, 1), (2, 1)]\<rparr>],
          [\<lparr>ti = 0, cells = [(0, 0)]\<rparr>, \<lparr>ti = 1, cells = [(1, 0), (2, 0)]\<rparr>,
           \<lparr>ti = 2, cells = [(0, 1), (1, 1), (2, 1)]\<rparr>]],
       coveredCount = 0, nodes = 11, rpos = 3, posted = []\<rparr>"
  by (simp add: search3)

lemma precompute3:
  "map_option (\<lambda>(ps, bc). (ps, map bc [(0, 0), (1, 0), (2, 0), (0, 1), (1, 1), (2, 1)]))
     (precomputePlacements 3 2 (set (boardCells 3 2 {})) tiles3) =
   Some (placements3, map (\<lambda>kv. Some (snd kv)) index3)"
  by code_simp

lemma no_throw3: "\<not> areaThrows 3 2 {} tiles3"
  by (simp add: areaThrows_def tiles3_def board3)

lemma enumerate3:
  "map_option (map_sum id en_solutions)
     (enumerateTilings 20 (\<lambda>_. 0) 0 3 2 {} tiles3 (Some True) 1000 None) =
   Some (Inr [[\<lparr>ti = 1, cells = [(0, 0), (1, 0)]\<rparr>, \<lparr>ti = 0, cells = [(2, 0)]\<rparr>,
               \<lparr>ti = 2, cells = [(0, 1), (1, 1), (2, 1)]\<rparr>],
              [\<lparr>ti = 0, cells = [(0, 0)]\<rparr>, \<lparr>ti = 1, cells = [(1, 0), (2, 0)]\<rparr>,
               \<lparr>ti = 2, cells = [(0, 1), (1, 1), (2, 1)]\<rparr>]])"
proof -
  let ?pc = "precomputePlacements 3 2 (set (boardCells 3 2 {})) tiles3"
  obtain r where r: "?pc = Some r"
    using precompute3 by (cases ?pc) simp_all
  obtain ps bc where r2: "r = (ps, bc)"
    by (cases r)
  have pc: "?pc = Some (ps, bc)"
    by (simp add: r r2)
  have ps: "ps = placements3"
    and bc: "map bc [(0, 0), (1, 0), (2, 0), (0, 1), (1, 1), (2, 1)] = map (\<lambda>kv. Some (snd kv)) index3"
    using precompute3 unfolding pc by simp_all
  let ?e = "envOf (\<lambda>_. 0) 3 2 {} tiles3 (Some True) 1000 None ps bc"
  have "sameIndex env3 ?e"
    using bc unfolding sameIndex_def env3_def envOf_def ps
    by (simp add: board3 index3_def)
  then have "rec ?e 20 (st0Of tiles3 0) = rec env3 20 (st0Of tiles3 0)"
    using sameIndex_search by blast
  then show ?thesis
    by (simp add: enumerateTilings_unfold pc no_throw3 search3_run)
qed

lemma flip3:
  "transformLayout (\<lambda>x y. (3 - 1 - x, y))
     [\<lparr>ti = 1, cells = [(0, 0), (1, 0)]\<rparr>, \<lparr>ti = 0, cells = [(2, 0)]\<rparr>,
      \<lparr>ti = 2, cells = [(0, 1), (1, 1), (2, 1)]\<rparr>] =
   [\<lparr>ti = 0, cells = [(0, 0)]\<rparr>, \<lparr>ti = 1, cells = [(1, 0), (2, 0)]\<rparr>,
    \<lparr>ti = 2, cells = [(0, 1), (1, 1), (2, 1)]\<rparr>]"
  by code_simp

lemma flip3_keeps: "keepsBoard (Some (set (boardCells 3 2 {}))) (\<lambda>x y. (3 - 1 - x, y))"
  by code_simp

lemma flip3_mem: "(\<lambda>x y. (3 - 1 - x, y)) \<in> set (boardSymTransforms 3 2)"
  by (simp add: boardSymTransforms_def)

text \<open>
  C2 (as stated) fails on the 3-by-2 board without holes, with one monomino, one domino and
  one 1-by-3 tromino in stock (no rotation, no reflection), \<open>uniqueByBoardSymmetry\<close> true, a
  cap of 1000 and every random draw 0. \<open>enumerateTilings\<close> returns two layouts, and the
  second is the image of the first under the horizontal flip \<open>fx\<close>: the flip is one of the
  transforms of \<open>boardSymTransforms 3 2\<close>, it maps the free-cell set onto itself, and the
  transformed first layout, normalised as \<open>canonicalKey\<close> normalises it, is the second
  layout; as sets of placed tiles the two agree as well. The canonical key is the least
  serialisation over identity and the two flips only, and this list is not closed under
  composition, so the key is not the same for all the layouts of one symmetry class.
\<close>

theorem C2_symmetric_duplicates_returned:
  "(\<exists>r. enumerateTilings 20 (\<lambda>_. 0) 0 3 2 {} tiles3 (Some True) 1000 None = Some (Inr r)
        \<and> en_solutions r =
            [[\<lparr>ti = 1, cells = [(0, 0), (1, 0)]\<rparr>, \<lparr>ti = 0, cells = [(2, 0)]\<rparr>,
              \<lparr>ti = 2, cells = [(0, 1), (1, 1), (2, 1)]\<rparr>],
             [\<lparr>ti = 0, cells = [(0, 0)]\<rparr>, \<lparr>ti = 1, cells = [(1, 0), (2, 0)]\<rparr>,
              \<lparr>ti = 2, cells = [(0, 1), (1, 1), (2, 1)]\<rparr>]])
   \<and> (\<lambda>x y. (3 - 1 - x, y)) \<in> set (boardSymTransforms 3 2)
   \<and> keepsBoard (Some (set (boardCells 3 2 {}))) (\<lambda>x y. (3 - 1 - x, y))
   \<and> transformLayout (\<lambda>x y. (3 - 1 - x, y))
        [\<lparr>ti = 1, cells = [(0, 0), (1, 0)]\<rparr>, \<lparr>ti = 0, cells = [(2, 0)]\<rparr>,
         \<lparr>ti = 2, cells = [(0, 1), (1, 1), (2, 1)]\<rparr>]
      = [\<lparr>ti = 0, cells = [(0, 0)]\<rparr>, \<lparr>ti = 1, cells = [(1, 0), (2, 0)]\<rparr>,
         \<lparr>ti = 2, cells = [(0, 1), (1, 1), (2, 1)]\<rparr>]
   \<and> set (map (\<lambda>p. (ti p, (\<lambda>(x, y). (3 - 1 - x, y)) ` set (cells p)))
             [\<lparr>ti = 1, cells = [(0, 0), (1, 0)]\<rparr>, \<lparr>ti = 0, cells = [(2, 0)]\<rparr>,
              \<lparr>ti = 2, cells = [(0, 1), (1, 1), (2, 1)]\<rparr>])
      = set (map (\<lambda>p. (ti p, set (cells p)))
             [\<lparr>ti = 0, cells = [(0, 0)]\<rparr>, \<lparr>ti = 1, cells = [(1, 0), (2, 0)]\<rparr>,
              \<lparr>ti = 2, cells = [(0, 1), (1, 1), (2, 1)]\<rparr>])"
proof -
  let ?run = "enumerateTilings 20 (\<lambda>_. 0) 0 3 2 {} tiles3 (Some True) 1000 None"
  let ?L1 = "[\<lparr>ti = 1, cells = [(0, 0), (1, 0)]\<rparr>, \<lparr>ti = 0, cells = [(2, 0)]\<rparr>,
              \<lparr>ti = 2, cells = [(0, 1), (1, 1), (2, 1)]\<rparr>]"
  let ?L2 = "[\<lparr>ti = 0, cells = [(0, 0)]\<rparr>, \<lparr>ti = 1, cells = [(1, 0), (2, 0)]\<rparr>,
              \<lparr>ti = 2, cells = [(0, 1), (1, 1), (2, 1)]\<rparr>]"
  from enumerate3 obtain v where v: "?run = Some v" and v2: "map_sum id en_solutions v = Inr [?L1, ?L2]"
    by (cases ?run) simp_all
  from v2 obtain r where "v = Inr r" and "en_solutions r = [?L1, ?L2]"
    by (cases v) simp_all
  then have 1: "\<exists>r. ?run = Some (Inr r) \<and> en_solutions r = [?L1, ?L2]"
    using v by blast
  have 5: "set (map (\<lambda>p. (ti p, (\<lambda>(x, y). (3 - 1 - x, y)) ` set (cells p))) ?L1)
      = set (map (\<lambda>p. (ti p, set (cells p))) ?L2)"
    by auto
  show ?thesis
    using 1 flip3_mem flip3_keeps flip3 5 by (intro conjI)
qed

end
